theory Spec2Isabelle
  imports Main "HOL-Library.Finite_Map"
begin

section \<open>Data model of \<open>langfun/core/message.py\<close>\<close>

text \<open>
  The classes of the module. \<open>Message\<close> is the base class; \<open>UserMessage\<close>,
  \<open>AIMessage\<close>, \<open>SystemMessage\<close> and \<open>MemoryRecord\<close> derive from it directly and
  add nothing but a default sender.
\<close>

datatype role = BaseMessage | UserMessage | AIMessage | SystemMessage | MemoryRecord

text \<open>
  A modality object (an image, an audio clip, ...). The payload is opaque to the message
  module; \<open>owned\<close> says whether the object already has a symbolic parent, which is what
  \<open>pg.maybe_ref\<close> looks at.
\<close>

datatype modality = Modality (payload: string) (owned: bool)

text \<open>
  The values a metadata dictionary holds: scalars, modality objects, \<open>pg.Ref\<close> wrappers,
  nested dictionaries and lists, and the sentinel \<open>pg.MISSING_VALUE\<close>.
\<close>

datatype val =
    VNone
  | VMissing
  | VInt int
  | VStr string
  | VMod modality
  | VRef val
  | VDict "(string, val) fmap"
  | VList "val list"

text \<open>One token of a key path: a field name or a list index.\<close>

datatype key = KField string | KIndex nat

text \<open>
  \<open>pg.FieldUpdate\<close>: the record \<open>_on_change\<close> receives for a changed location (old and new
  value; \<open>VMissing\<close> stands for an absent entry).
\<close>

datatype field_update = FieldUpdate (old_value: val) (new_value: val)

text \<open>
  A message: its class, the three symbolic fields \<open>text\<close>, \<open>sender\<close>, \<open>metadata\<close>, the
  \<open>tags\<close> list, the per-instance \<open>_updates\<close> and \<open>_errors\<close> collections and the
  \<open>_source\<close> link. A value of this type is a finite acyclic source chain.
\<close>

datatype message = Message
  (cls: role)
  (msg_text: string)
  (sender: string)
  (metadata: "(string, val) fmap")
  (tags: "string list")
  (updates: "(key list, field_update) fmap")
  (errors: "string list")
  (source: "message option")

text \<open>\<open>Message.__init__\<close> followed by \<open>_on_init\<close>, and the four role variants with their senders.\<close>

definition init_message ::
  "role \<Rightarrow> string \<Rightarrow> string \<Rightarrow> (string, val) fmap \<Rightarrow> string list \<Rightarrow> message option \<Rightarrow> message" where
  "init_message c t s md tg src = Message c t s md tg fmempty [] src"

definition user_message :: "string \<Rightarrow> message" where
  "user_message t = init_message UserMessage t ''User'' fmempty [] None"

definition ai_message :: "string \<Rightarrow> message" where
  "ai_message t = init_message AIMessage t ''AI'' fmempty [] None"

definition system_message :: "string \<Rightarrow> message" where
  "system_message t = init_message SystemMessage t ''System'' fmempty [] None"

definition memory_record :: "string \<Rightarrow> message" where
  "memory_record t = init_message MemoryRecord t ''Memory'' fmempty [] None"

section \<open>Source chain: \<open>root\<close>, \<open>trace\<close>, \<open>last\<close>\<close>

text \<open>
  \<open>root\<close>: \<open>while root.source is not None: root = root.source\<close>.
\<close>

fun root :: "message \<Rightarrow> message" where
  "root (Message c t s md tg up er None) = Message c t s md tg up er None"
| "root (Message c t s md tg up er (Some p)) = root p"

text \<open>
  \<open>trace\<close>: the loop over \<open>current\<close> with the accumulator \<open>message_chain\<close>, then
  \<open>list(reversed(message_chain))\<close>. The tag argument is \<open>None\<close> or a string.
\<close>

fun trace_loop :: "string option \<Rightarrow> message list \<Rightarrow> message option \<Rightarrow> message list" where
  "trace_loop tag message_chain None = message_chain"
| "trace_loop tag message_chain (Some (Message c t s md tg up er src)) =
     trace_loop tag
       (if tag = None \<or> the tag \<in> set tg
        then message_chain @ [Message c t s md tg up er src] else message_chain)
       src"

definition trace :: "message \<Rightarrow> string option \<Rightarrow> message list" where
  "trace m tag = rev (trace_loop tag [] (Some m))"

text \<open>\<open>last\<close>: the first message from \<open>self\<close> backwards that carries the tag.\<close>

fun last_loop :: "string \<Rightarrow> message option \<Rightarrow> message option" where
  "last_loop tag None = None"
| "last_loop tag (Some (Message c t s md tg up er src)) =
     (if tag \<in> set tg then Some (Message c t s md tg up er src) else last_loop tag src)"

definition last_tagged :: "message \<Rightarrow> string \<Rightarrow> message option" where
  "last_tagged m tag = last_loop tag (Some m)"

section \<open>Equality and hashing\<close>

text \<open>
  What the argument of \<open>__eq__\<close>, and the right operand of \<open>==\<close>, can be: a string, a
  message, or anything else.
\<close>

datatype pyobj = OStr string | OMsg message | OOther

text \<open>\<open>isinstance(x, C)\<close> for \<open>x\<close> of class \<open>c\<close>: every class derives from \<open>Message\<close> only.\<close>

definition isinstance_of :: "role \<Rightarrow> role \<Rightarrow> bool" where
  "isinstance_of c C = (C = BaseMessage \<or> c = C)"

text \<open>The method \<open>__eq__\<close>, called directly: \<open>m.__eq__(other)\<close>.\<close>

fun msg_eq :: "message \<Rightarrow> pyobj \<Rightarrow> bool" where
  "msg_eq m (OStr s) = (msg_text m = s)"
| "msg_eq m (OMsg other) =
     (if isinstance_of (cls other) (cls m)
      then msg_text m = msg_text other \<and> sender m = sender other \<and> metadata m = metadata other
      else False)"
| "msg_eq m OOther = False"

text \<open>
  The operator \<open>m == other\<close> with a message on the left. Python tries the right operand's
  \<open>__eq__\<close> first when the class of the right operand is a proper subclass of the class of
  the left one, and the left operand's \<open>__eq__\<close> otherwise. \<open>__eq__\<close> of a message always
  returns a truth value, never \<open>NotImplemented\<close>, so the method tried first decides.
\<close>

fun py_eq :: "message \<Rightarrow> pyobj \<Rightarrow> bool" where
  "py_eq m (OMsg other) =
     (if cls other \<noteq> cls m \<and> isinstance_of (cls other) (cls m)
      then msg_eq other (OMsg m)
      else msg_eq m (OMsg other))"
| "py_eq m other = msg_eq m other"

text \<open>\<open>__hash__\<close>: \<open>hash(self.text)\<close>, for Python's string hash \<open>h\<close>.\<close>

definition msg_hash :: "(string \<Rightarrow> int) \<Rightarrow> message \<Rightarrow> int" where
  "msg_hash h m = h (msg_text m)"

section \<open>Key paths and the symbolic dictionary\<close>

text \<open>The constants of the class.\<close>

definition PATH_ROOT :: string where
  "PATH_ROOT = []"

definition PATH_TEXT :: string where
  "PATH_TEXT = ''text''"

definition PATH_RESULT :: string where
  "PATH_RESULT = ''result''"

text \<open>The errors the operations raise.\<close>

datatype error = KeyError | TypeError | AssertionError

text \<open>
  Modelled from the spec: the parser of key paths (\<open>pg.KeyPath\<close>) is not among the sources.
  The spec speaks of dotted/indexed paths such as \<open>a.b\<close>, \<open>x[0].a\<close>, parsed into field-name
  and index tokens. A dot separates field names, a bracket pair encloses one token, which is
  an index when it consists of decimal digits; empty names between separators are skipped.
  \<open>None\<close> is a path with unbalanced brackets, which resolves nowhere.
\<close>

definition is_digit :: "char \<Rightarrow> bool" where
  "is_digit c = (let n = (of_char c :: nat) in 48 \<le> n \<and> n \<le> 57)"

definition digit_val :: "char \<Rightarrow> nat" where
  "digit_val c = of_char c - 48"

definition nat_of_digits :: "string \<Rightarrow> nat" where
  "nat_of_digits ds = foldl (\<lambda>n c. 10 * n + digit_val c) 0 ds"

definition field_key :: "string \<Rightarrow> key list" where
  "field_key cur = (if cur = [] then [] else [KField cur])"

definition bracket_key :: "string \<Rightarrow> key" where
  "bracket_key cur =
     (if cur \<noteq> [] \<and> list_all is_digit cur then KIndex (nat_of_digits cur) else KField cur)"

fun parse_loop :: "nat \<Rightarrow> string \<Rightarrow> key list \<Rightarrow> string \<Rightarrow> key list option" where
  "parse_loop depth cur ks [] = (if depth = 0 then Some (ks @ field_key cur) else None)"
| "parse_loop depth cur ks (ch # rest) =
     (if ch = CHR '']'' then
        (if depth = 0 then None
         else if depth = 1 then parse_loop 0 [] (ks @ [bracket_key cur]) rest
         else parse_loop (depth - 1) (cur @ [ch]) ks rest)
      else if ch = CHR ''['' then
        (if depth = 0 then parse_loop 1 [] (ks @ field_key cur) rest
         else parse_loop (depth + 1) (cur @ [ch]) ks rest)
      else if ch = CHR ''.'' \<and> depth = 0 then parse_loop 0 [] (ks @ field_key cur) rest
      else parse_loop depth (cur @ [ch]) ks rest)"

definition parse_path :: "string \<Rightarrow> key list option" where
  "parse_path path_str = parse_loop 0 [] [] path_str"

text \<open>
  Modelled from the spec: \<open>sym_get\<close> of the symbolic dictionary is not among the sources. It
  is a structural read at the path, which yields the default when the path does not
  resolve, and never raises.
\<close>

fun query :: "key list \<Rightarrow> val \<Rightarrow> val option" where
  "query [] v = Some v"
| "query (KField k # ks) (VDict d) =
     (case fmlookup d k of None \<Rightarrow> None | Some v \<Rightarrow> query ks v)"
| "query (KIndex i # ks) (VList xs) = (if i < length xs then query ks (xs ! i) else None)"
| "query (k # ks) v = None"

definition sym_get :: "(string, val) fmap \<Rightarrow> string \<Rightarrow> val \<Rightarrow> val" where
  "sym_get md key_path dflt =
     (case parse_path key_path of
        None \<Rightarrow> dflt
      | Some ks \<Rightarrow> (case query ks (VDict md) of None \<Rightarrow> dflt | Some v \<Rightarrow> v))"

text \<open>
  Modelled from the spec: \<open>rebind\<close> of the symbolic dictionary is not among the sources. It
  is a structural update at the path that creates intermediate containers as needed;
  assigning the missing sentinel deletes the entry. Where the spec is silent: the root path
  is not a location inside the dictionary and is rejected with a \<open>KeyError\<close>; a missing
  intermediate is created as a dictionary before a field name and as a list before an
  index; a list accepts an index up to its length (the length appends) and deleting an
  element moves the later ones down; a token that does not fit the container it meets is a
  \<open>KeyError\<close>.
\<close>

fun new_container :: "key list \<Rightarrow> val" where
  "new_container (KIndex i # ks) = VList []"
| "new_container ks = VDict fmempty"

fun rebind_path :: "key list \<Rightarrow> val \<Rightarrow> val \<Rightarrow> error + val" where
  "rebind_path [] v c = Inl KeyError"
| "rebind_path [KField k] v (VDict d) =
     Inr (VDict (if v = VMissing then fmdrop k d else fmupd k v d))"
| "rebind_path [KIndex i] v (VList xs) =
     (if v = VMissing then
        (if i < length xs then Inr (VList (take i xs @ drop (Suc i) xs)) else Inl KeyError)
      else if i < length xs then Inr (VList (xs[i := v]))
      else if i = length xs then Inr (VList (xs @ [v]))
      else Inl KeyError)"
| "rebind_path (KField k # ks) v (VDict d) =
     (case rebind_path ks v (case fmlookup d k of None \<Rightarrow> new_container ks | Some c \<Rightarrow> c) of
        Inl e \<Rightarrow> Inl e
      | Inr c' \<Rightarrow> Inr (VDict (fmupd k c' d)))"
| "rebind_path (KIndex i # ks) v (VList xs) =
     (if i < length xs then
        (case rebind_path ks v (xs ! i) of
           Inl e \<Rightarrow> Inl e
         | Inr c' \<Rightarrow> Inr (VList (xs[i := c'])))
      else if i = length xs then
        (case rebind_path ks v (new_container ks) of
           Inl e \<Rightarrow> Inl e
         | Inr c' \<Rightarrow> Inr (VList (xs @ [c'])))
      else Inl KeyError)"
| "rebind_path (k # ks) v c = Inl KeyError"

section \<open>Change tracking\<close>

text \<open>Assignments to the fields of a message.\<close>

fun with_text :: "string \<Rightarrow> message \<Rightarrow> message" where
  "with_text t' (Message c t s md tg up er src) = Message c t' s md tg up er src"

fun with_metadata :: "(string, val) fmap \<Rightarrow> message \<Rightarrow> message" where
  "with_metadata md' (Message c t s md tg up er src) = Message c t s md' tg up er src"

fun with_tags :: "string list \<Rightarrow> message \<Rightarrow> message" where
  "with_tags tg' (Message c t s md tg up er src) = Message c t s md tg' up er src"

fun with_updates :: "(key list, field_update) fmap \<Rightarrow> message \<Rightarrow> message" where
  "with_updates up' (Message c t s md tg up er src) = Message c t s md tg up' er src"

fun with_errors :: "string list \<Rightarrow> message \<Rightarrow> message" where
  "with_errors er' (Message c t s md tg up er src) = Message c t s md tg up er' src"

text \<open>\<open>_on_change\<close>: \<open>self._updates.update(field_updates)\<close>.\<close>

definition on_change :: "(key list, field_update) fmap \<Rightarrow> message \<Rightarrow> message" where
  "on_change field_updates m = with_updates (updates m ++\<^sub>f field_updates) m"

text \<open>
  \<open>self.rebind({'text': value}, raise_on_no_change=False)\<close>: the field \<open>text\<close> is declared
  a string, so another value is a \<open>TypeError\<close>; a changed text is reported to \<open>_on_change\<close>
  under the path \<open>text\<close>, an unchanged one is accepted silently.
\<close>

definition rebind_text :: "message \<Rightarrow> val \<Rightarrow> error + message" where
  "rebind_text m v =
     (case v of
        VStr t' \<Rightarrow>
          (if t' = msg_text m then Inr m
           else Inr (on_change
                  (fmupd [KField ''text''] (FieldUpdate (VStr (msg_text m)) (VStr t')) fmempty)
                  (with_text t' m)))
      | _ \<Rightarrow> Inl TypeError)"

text \<open>
  \<open>self.metadata.rebind({key_path: value}, raise_on_no_change=False)\<close>: the update of the
  dictionary, reported to the message's \<open>_on_change\<close> under the path below \<open>metadata\<close> when
  the dictionary changed.
\<close>

definition rebind_metadata :: "message \<Rightarrow> string \<Rightarrow> val \<Rightarrow> error + message" where
  "rebind_metadata m key_path v =
     (case parse_path key_path of
        None \<Rightarrow> Inl KeyError
      | Some ks \<Rightarrow>
          (case rebind_path ks v (VDict (metadata m)) of
             Inr (VDict md') \<Rightarrow>
               (if md' = metadata m then Inr m
                else Inr (on_change
                       (fmupd (KField ''metadata'' # ks)
                          (FieldUpdate
                             (case query ks (VDict (metadata m)) of None \<Rightarrow> VMissing | Some old \<Rightarrow> old)
                             v)
                          fmempty)
                       (with_metadata md' m)))
           | Inr _ \<Rightarrow> Inl KeyError
           | Inl e \<Rightarrow> Inl e))"

section \<open>Unified access: \<open>set\<close> and \<open>get\<close>\<close>

definition set_msg :: "message \<Rightarrow> string \<Rightarrow> val \<Rightarrow> error + message" where
  "set_msg m key_path v =
     (if key_path = PATH_TEXT then rebind_text m v else rebind_metadata m key_path v)"

text \<open>What \<open>get\<close> returns: the message itself for the root path, a value otherwise.\<close>

datatype got = GSelf message | GVal val

definition get :: "message \<Rightarrow> string \<Rightarrow> val \<Rightarrow> got" where
  "get m key_path dflt =
     (if key_path = [] then GSelf m
      else if key_path = PATH_TEXT then GVal (VStr (msg_text m))
      else (let v = sym_get (metadata m) key_path dflt
            in GVal (case v of VRef x \<Rightarrow> x | _ \<Rightarrow> v)))"

section \<open>Update scopes and tags\<close>

text \<open>
  \<open>update_scope\<close>: the body of the \<open>with\<close> block is a function of the message that ends
  normally (\<open>Inr\<close>) or by raising (\<open>Inl\<close>); the \<open>finally\<close> clause runs in both cases.
\<close>

definition update_scope ::
  "(message \<Rightarrow> ('e + 'a) \<times> message) \<Rightarrow> message \<Rightarrow> ('e + 'a) \<times> message" where
  "update_scope body m =
     (let accumulated_updates = updates m;
          accumulated_errors = errors m;
          (outcome, m') = body (with_errors [] (with_updates fmempty m))
      in (outcome,
          with_errors (accumulated_errors @ errors m')
            (with_updates (accumulated_updates ++\<^sub>f updates m') m')))"

text \<open>
  \<open>self.tags.append(tag)\<close>. With notification on, the append of a symbolic list is
  reported to \<open>_on_change\<close>; \<open>tag\<close> appends under \<open>pg.notify_on_change(False)\<close>.
\<close>

definition tags_append :: "bool \<Rightarrow> string \<Rightarrow> message \<Rightarrow> message" where
  "tags_append notify t m =
     (let m' = with_tags (tags m @ [t]) m
      in if notify
         then on_change
                (fmupd [KField ''tags'', KIndex (length (tags m))]
                   (FieldUpdate VMissing (VStr t)) fmempty) m'
         else m')"

definition tag :: "string \<Rightarrow> message \<Rightarrow> message" where
  "tag t m = (if t \<notin> set (tags m) then tags_append False t m else m)"

section \<open>Modalities\<close>

fun get_modality :: "message \<Rightarrow> string \<Rightarrow> val \<Rightarrow> bool \<Rightarrow> val" where
  "get_modality (Message c t s md tg up er src) var_name dflt from_message_chain =
     (case get (Message c t s md tg up er src) var_name VNone of
        GVal (VMod x) \<Rightarrow> VMod x
      | GVal VNone \<Rightarrow>
          (case src of
             None \<Rightarrow> dflt
           | Some p \<Rightarrow> get_modality p var_name dflt from_message_chain)
      | _ \<Rightarrow> dflt)"

section \<open>Strings\<close>

text \<open>
  A string is a list of characters, one \<open>char\<close> per code point below 256.
  \<open>is_space\<close> is \<open>str.isspace\<close> on these code points, \<open>strip\<close> is \<open>str.strip()\<close>,
  \<open>str_find text sub start\<close> is \<open>text.find(sub, start)\<close> with \<open>None\<close> for \<open>-1\<close>, and
  \<open>slice text a b\<close> is \<open>text[a:b]\<close> for indices that are not negative.
\<close>

definition is_space :: "char \<Rightarrow> bool" where
  "is_space c =
     (let n = (of_char c :: nat)
      in (9 \<le> n \<and> n \<le> 13) \<or> (28 \<le> n \<and> n \<le> 32) \<or> n = 133 \<or> n = 160)"

definition lstrip :: "string \<Rightarrow> string" where
  "lstrip s = dropWhile is_space s"

definition rstrip :: "string \<Rightarrow> string" where
  "rstrip s = rev (dropWhile is_space (rev s))"

definition strip :: "string \<Rightarrow> string" where
  "strip s = rstrip (lstrip s)"

fun find_first :: "string \<Rightarrow> string \<Rightarrow> nat option" where
  "find_first sub [] = (if sub = [] then Some 0 else None)"
| "find_first sub (c # cs) =
     (if take (length sub) (c # cs) = sub then Some 0
      else map_option Suc (find_first sub cs))"

definition str_find :: "string \<Rightarrow> string \<Rightarrow> nat \<Rightarrow> nat option" where
  "str_find text sub start =
     (if length text < start then None
      else map_option (\<lambda>i. start + i) (find_first sub (drop start text)))"

definition slice :: "string \<Rightarrow> nat \<Rightarrow> nat \<Rightarrow> string" where
  "slice text a b = take (b - a) (drop a text)"

text \<open>The decimal numeral of a natural number, as an f-string prints it.\<close>

definition digit_char :: "nat \<Rightarrow> char" where
  "digit_char d = char_of (48 + d)"

function str_nat :: "nat \<Rightarrow> string" where
  "str_nat n = (if n < 10 then [digit_char n] else str_nat (n div 10) @ [digit_char (n mod 10)])"
  by pat_completeness auto
termination
  by (relation "measure id") auto

declare str_nat.simps [simp del]

section \<open>Chunking and fusion\<close>

text \<open>
  Modelled from the spec: the class \<open>Modality\<close> (module \<open>langfun.core.modality\<close>) is not
  among the sources. The spec gives it a fixed start and end delimiter and a function
  \<open>text_marker(name)\<close> that yields the delimited placeholder, in the style
  \<open>{{var_name}}\<close>.
\<close>

definition REF_START :: string where
  "REF_START = ''{{''"

definition REF_END :: string where
  "REF_END = ''}}''"

definition text_marker :: "string \<Rightarrow> string" where
  "text_marker var_name = REF_START @ var_name @ REF_END"

text \<open>
  Modelled from the spec: \<open>pg.maybe_ref\<close> is not among the sources. An object that is
  already owned elsewhere is stored as a non-owning reference, any other as itself.
\<close>

definition maybe_ref :: "val \<Rightarrow> val" where
  "maybe_ref v = (case v of VMod x \<Rightarrow> (if owned x then VRef v else v) | _ \<Rightarrow> v)"

definition add_text_chunk :: "val list \<Rightarrow> string \<Rightarrow> val list" where
  "add_text_chunk chunks text_piece =
     (if text_piece \<noteq> [] then chunks @ [VStr text_piece] else chunks)"

text \<open>
  The loop of \<open>chunk\<close> over the variables \<open>chunks\<close>, \<open>chunk_start\<close> and \<open>ref_end\<close>. Each
  round that goes on moves \<open>ref_end\<close> forward, so the loop ends.
\<close>

function chunk_loop :: "message \<Rightarrow> val list \<Rightarrow> nat \<Rightarrow> nat \<Rightarrow> val list" where
  "chunk_loop m chunks chunk_start ref_end =
     (if chunk_start < length (msg_text m) then
        (case str_find (msg_text m) REF_START ref_end of
           None \<Rightarrow> add_text_chunk chunks (strip (drop chunk_start (msg_text m)))
         | Some ref_start \<Rightarrow>
             (case str_find (msg_text m) REF_END (ref_start + length REF_START) of
                None \<Rightarrow> add_text_chunk chunks (drop chunk_start (msg_text m))
              | Some ref_end' \<Rightarrow>
                  (let var_name = strip (slice (msg_text m) (ref_start + length REF_START) ref_end');
                       var_value = get_modality m var_name VNone True
                   in if var_value \<noteq> VNone
                      then chunk_loop m
                             (add_text_chunk chunks (strip (slice (msg_text m) chunk_start ref_start))
                                @ [var_value])
                             (ref_end' + length REF_END) ref_end'
                      else chunk_loop m chunks chunk_start ref_end')))
      else chunks)"
  by pat_completeness auto
termination
proof (relation "measure (\<lambda>(m, chunks, chunk_start, ref_end). length (msg_text m) - ref_end)")
  show "wf (measure (\<lambda>(m, chunks, chunk_start, ref_end). length (msg_text m) - ref_end))"
    by simp
next
  fix m :: message and chunks :: "val list" and chunk_start ref_end ref_start ref_end' :: nat
    and var_name :: string and var_value :: val
  assume a: "str_find (msg_text m) REF_START ref_end = Some ref_start"
    and b: "str_find (msg_text m) REF_END (ref_start + length REF_START) = Some ref_end'"
  have first: "i + length sub \<le> length s" if "find_first sub s = Some i" for sub s :: string and i
    using that
  proof (induction s arbitrary: i)
    case Nil
    then show ?case by (simp split: if_splits)
  next
    case (Cons c cs)
    show ?case
    proof (cases "take (length sub) (c # cs) = sub")
      case True
      have "length (take (length sub) (c # cs)) = length sub"
        by (simp only: True)
      then have "length sub \<le> length (c # cs)"
        by (simp add: min_def split: if_splits)
      with True Cons.prems show ?thesis by simp
    next
      case False
      with Cons.prems obtain j where "find_first sub cs = Some j" and "i = Suc j"
        by auto
      with Cons.IH show ?thesis by fastforce
    qed
  qed
  have bounds: "start \<le> i \<and> i + length sub \<le> length s"
    if "str_find s sub start = Some i" for s sub :: string and start i
    using that by (auto simp: str_find_def split: if_splits dest!: first)
  from bounds [OF a] bounds [OF b]
  have "ref_end < ref_end'" and "ref_end' < length (msg_text m)"
    by (simp_all add: REF_START_def REF_END_def)
  then have d: "length (msg_text m) - ref_end' < length (msg_text m) - ref_end"
    by arith
  show "((m, add_text_chunk chunks (strip (slice (msg_text m) chunk_start ref_start)) @ [var_value],
          ref_end' + length REF_END, ref_end'),
         (m, chunks, chunk_start, ref_end))
        \<in> measure (\<lambda>(m, chunks, chunk_start, ref_end). length (msg_text m) - ref_end)"
    using d by simp
  show "((m, chunks, chunk_start, ref_end'), (m, chunks, chunk_start, ref_end))
        \<in> measure (\<lambda>(m, chunks, chunk_start, ref_end). length (msg_text m) - ref_end)"
    using d by simp
qed

declare chunk_loop.simps [simp del]

definition chunk :: "message \<Rightarrow> val list" where
  "chunk m = chunk_loop m [] 0 0"

text \<open>
  The default sender of a class; the base class declares none, so that constructing it
  without a sender is a \<open>TypeError\<close>.
\<close>

fun default_sender :: "role \<Rightarrow> string option" where
  "default_sender BaseMessage = None"
| "default_sender UserMessage = Some ''User''"
| "default_sender AIMessage = Some ''AI''"
| "default_sender SystemMessage = Some ''System''"
| "default_sender MemoryRecord = Some ''Memory''"

definition new_message :: "role \<Rightarrow> string \<Rightarrow> (string, val) fmap \<Rightarrow> error + message" where
  "new_message c t md =
     (case default_sender c of
        None \<Rightarrow> Inl TypeError
      | Some s \<Rightarrow> Inr (init_message c t s md [] None))"

text \<open>
  The loop of \<open>from_chunks\<close> over \<open>enumerate(chunks)\<close>, with the variables \<open>fused_text\<close>,
  \<open>ref_index\<close> and \<open>metadata\<close>.
\<close>

fun from_chunks_loop ::
  "string \<Rightarrow> nat \<Rightarrow> val list \<Rightarrow> string \<times> nat \<times> (string, val) fmap
     \<Rightarrow> error + string \<times> nat \<times> (string, val) fmap" where
  "from_chunks_loop separator i [] st = Inr st"
| "from_chunks_loop separator i (piece # rest) (fused_text, ref_index, md) =
     (let fused = (if i > 0 then fused_text @ separator else fused_text)
      in case piece of
           VStr s \<Rightarrow> from_chunks_loop separator (i + 1) rest (fused @ s, ref_index, md)
         | VMod x \<Rightarrow>
             (let var_name = ''obj'' @ str_nat ref_index
              in from_chunks_loop separator (i + 1) rest
                   (fused @ text_marker var_name, ref_index + 1,
                    fmupd var_name (maybe_ref (VMod x)) md))
         | _ \<Rightarrow> Inl AssertionError)"

definition from_chunks :: "role \<Rightarrow> val list \<Rightarrow> string \<Rightarrow> error + message" where
  "from_chunks c chunks separator =
     (case from_chunks_loop separator 0 chunks ([], 0, fmempty) of
        Inl e \<Rightarrow> Inl e
      | Inr (fused_text, ref_index, md) \<Rightarrow> new_message c (strip fused_text) md)"

section \<open>Predicates on paths and chunks\<close>



text \<open>What \<open>chunk\<close> may put into its result: a text that is not empty, or a modality.\<close>

definition is_chunk :: "val \<Rightarrow> bool" where
  "is_chunk c = (case c of VStr s \<Rightarrow> s \<noteq> [] | VMod x \<Rightarrow> True | _ \<Rightarrow> False)"

section \<open>Well-formed chunk sequences\<close>

text \<open>
  The sequences on which fusion and chunking are inverse. A text chunk is acceptable when
  it holds a character that is not whitespace and no start delimiter; a sequence is
  well-formed when its elements are acceptable texts and modalities and no two texts are
  adjacent. \<open>trim_chunk\<close> trims a text chunk and leaves a modality as it is.
\<close>

definition ok_text :: "string \<Rightarrow> bool" where
  "ok_text s = (strip s \<noteq> [] \<and> str_find s REF_START 0 = None)"

fun wf_chunks :: "val list \<Rightarrow> bool" where
  "wf_chunks [] = True"
| "wf_chunks [VStr s] = ok_text s"
| "wf_chunks (VStr s # VMod x # rest) = (ok_text s \<and> wf_chunks rest)"
| "wf_chunks (VMod x # rest) = wf_chunks rest"
| "wf_chunks (v # rest) = False"

fun trim_chunk :: "val \<Rightarrow> val" where
  "trim_chunk (VStr s) = VStr (strip s)"
| "trim_chunk v = v"

text \<open>The modalities of a chunk sequence, in order.\<close>

fun modalities :: "val list \<Rightarrow> modality list" where
  "modalities [] = []"
| "modalities (VMod x # rest) = x # modalities rest"
| "modalities (v # rest) = modalities rest"

text \<open>
  What the loop of \<open>from_chunks\<close> writes for a sequence of texts and modalities, from the
  reference index \<open>k\<close> on: the text (\<open>sep_before\<close> says whether a separator precedes the
  first chunk) and the metadata.
\<close>

fun fused_of :: "string \<Rightarrow> bool \<Rightarrow> nat \<Rightarrow> val list \<Rightarrow> string" where
  "fused_of sep sep_before k [] = []"
| "fused_of sep sep_before k (VStr s # rest) =
     (if sep_before then sep else []) @ s @ fused_of sep True k rest"
| "fused_of sep sep_before k (VMod x # rest) =
     (if sep_before then sep else []) @ text_marker (''obj'' @ str_nat k)
       @ fused_of sep True (Suc k) rest"
| "fused_of sep sep_before k (v # rest) = []"

fun metadata_of :: "nat \<Rightarrow> val list \<Rightarrow> (string, val) fmap \<Rightarrow> (string, val) fmap" where
  "metadata_of k [] md = md"
| "metadata_of k (VMod x # rest) md =
     metadata_of (Suc k) rest (fmupd (''obj'' @ str_nat k) (maybe_ref (VMod x)) md)"
| "metadata_of k (v # rest) md = metadata_of k rest md"

text \<open>The default separator of \<open>from_chunks\<close>, a newline.\<close>

definition newline :: string where
  "newline = [CHR 0x0A]"

text \<open>A character that is neither whitespace nor a separator of paths or references.\<close>

definition plain_char :: "char \<Rightarrow> bool" where
  "plain_char c = (\<not> is_space c \<and> c \<noteq> CHR ''.'' \<and> c \<noteq> CHR ''['' \<and> c \<noteq> CHR '']''
     \<and> c \<noteq> CHR ''{'' \<and> c \<noteq> CHR ''}'')"

section \<open>Example messages\<close>

text \<open>
  A parent whose metadata holds an image under \<open>obj0\<close>, and a child derived from it whose
  own metadata is empty.
\<close>

definition ex_img :: modality where
  "ex_img = Modality ''img'' False"

definition ex_parent :: message where
  "ex_parent =
     init_message UserMessage ''see {{obj0}}'' ''User'' (fmupd ''obj0'' (VMod ex_img) fmempty) [] None"

definition ex_child :: message where
  "ex_child = init_message AIMessage ''a cat'' ''AI'' fmempty [] (Some ex_parent)"

text \<open>
  A chain of four messages: a user message, the model's raw response (the only one tagged
  \<open>lm-response\<close>), and two transformed messages.
\<close>

definition w_root :: message where
  "w_root = user_message ''hi''"

definition w_m1 :: message where
  "w_m1 = Message AIMessage ''a'' ''AI'' fmempty [''lm-response''] fmempty [] (Some w_root)"

definition w_m2 :: message where
  "w_m2 = Message AIMessage ''b'' ''AI'' fmempty [''transformed''] fmempty [] (Some w_m1)"

definition w_m3 :: message where
  "w_m3 = Message AIMessage ''c'' ''AI'' fmempty [''lm-output''] fmempty [] (Some w_m2)"

text \<open>The message of the docstring of \<open>set\<close>.\<close>

definition ex_msg :: message where
  "ex_msg =
     init_message AIMessage ''foo'' ''AI''
       (fmupd ''x'' (VDict (fmupd ''k'' (VList [VInt 0, VInt 1]) fmempty))
          (fmupd ''y'' (VInt 2) fmempty))
       [] None"


definition ex_msg_y5 :: message where
  "ex_msg_y5 =
     on_change
       (fmupd [KField ''metadata'', KField ''y''] (FieldUpdate (VInt 2) (VInt 5)) fmempty)
       (with_metadata (fmupd ''y'' (VInt 5) (metadata ex_msg)) ex_msg)"

definition ex_msg_del :: message where
  "ex_msg_del =
     on_change
       (fmupd [KField ''metadata'', KField ''y''] (FieldUpdate (VInt 2) VMissing) fmempty)
       (with_metadata (fmdrop ''y'' (metadata ex_msg)) ex_msg)"

definition ex_msg_ref :: message where
  "ex_msg_ref =
     on_change
       (fmupd [KField ''metadata'', KField ''y''] (FieldUpdate VMissing (VRef (VMod ex_img))) fmempty)
       (with_metadata (fmupd ''y'' (VRef (VMod ex_img)) fmempty) (ai_message ''foo''))"

text \<open>
  The result of \<open>UserMessage.from_chunks(['a', ex_img, 'b'])\<close> and of
  \<open>UserMessage.from_chunks(['a', 'b'])\<close>.
\<close>

definition ex_fused :: message where
  "ex_fused =
     init_message UserMessage (''a'' @ newline @ ''{{obj0}}'' @ newline @ ''b'') ''User''
       (fmupd ''obj0'' (VMod ex_img) fmempty) [] None"

definition ex_fused_texts :: message where
  "ex_fused_texts = init_message UserMessage (''a'' @ newline @ ''b'') ''User'' fmempty [] None"

section \<open>Properties\<close>

subsection \<open>Bounds of a search\<close>

lemma find_first_bounds: "find_first sub s = Some i \<Longrightarrow> i + length sub \<le> length s"
proof (induction s arbitrary: i)
  case Nil
  then show ?case by (simp split: if_splits)
next
  case (Cons c cs)
  show ?case
  proof (cases "take (length sub) (c # cs) = sub")
    case True
    have "length (take (length sub) (c # cs)) = length sub"
      by (simp only: True)
    then have "length sub \<le> length (c # cs)"
      by (simp add: min_def split: if_splits)
    with True Cons.prems show ?thesis by simp
  next
    case False
    with Cons.prems obtain j where "find_first sub cs = Some j" and "i = Suc j"
      by auto
    with Cons.IH show ?thesis by fastforce
  qed
qed

lemma str_find_bounds:
  "str_find text sub start = Some i \<Longrightarrow> start \<le> i \<and> i + length sub \<le> length text"
  by (auto simp: str_find_def split: if_splits dest!: find_first_bounds)

subsection \<open>The source chain\<close>

lemma source_root: "source (root m) = None"
  by (induction m rule: root.induct) simp_all

lemma root_unfold: "root m = (case source m of None \<Rightarrow> m | Some p \<Rightarrow> root p)"
  by (cases m; cases "source m") auto

lemma trace_loop_unfold:
  "trace_loop tg acc (Some m) =
     trace_loop tg (if tg = None \<or> the tg \<in> set (tags m) then acc @ [m] else acc) (source m)"
  by (cases m) simp

lemma last_loop_unfold:
  "last_loop tg (Some m) = (if tg \<in> set (tags m) then Some m else last_loop tg (source m))"
  by (cases m) simp

text \<open>
  C5. For a chain \<open>r -> m1 -> m2 -> m3\<close> linked through \<open>source\<close>, \<open>m3.trace()\<close> is
  \<open>[r, m1, m2, m3]\<close>, \<open>m3.root\<close> is \<open>r\<close>, which is the only message of the chain without a
  source, and \<open>m3.last(tag)\<close> is the message nearest to \<open>m3\<close> that carries the tag, or
  \<open>None\<close> when no message of the chain carries it.
\<close>

theorem chain_ordering:
  assumes "source r = None" and "source m1 = Some r"
    and "source m2 = Some m1" and "source m3 = Some m2"
  shows "trace m3 None = [r, m1, m2, m3]
    \<and> root m3 = r
    \<and> (\<forall>x \<in> set (trace m3 None). source x = None \<longrightarrow> x = r)
    \<and> last_tagged m3 t =
        (if t \<in> set (tags m3) then Some m3
         else if t \<in> set (tags m2) then Some m2
         else if t \<in> set (tags m1) then Some m1
         else if t \<in> set (tags r) then Some r
         else None)"
proof -
  have tr: "trace m3 None = [r, m1, m2, m3]"
    using assms by (simp add: trace_def trace_loop_unfold)
  have rt: "root m3 = r"
    using assms by (simp add: root_unfold [of m3] root_unfold [of m2] root_unfold [of m1] root_unfold [of r])
  have un: "\<forall>x \<in> set (trace m3 None). source x = None \<longrightarrow> x = r"
    using assms by (auto simp: tr)
  have la: "last_tagged m3 t =
        (if t \<in> set (tags m3) then Some m3
         else if t \<in> set (tags m2) then Some m2
         else if t \<in> set (tags m1) then Some m1
         else if t \<in> set (tags r) then Some r
         else None)"
    using assms by (simp add: last_tagged_def last_loop_unfold)
  from tr rt un la show ?thesis by blast
qed

theorem chain_ordering_witness:
  "source w_root = None \<and> source w_m1 = Some w_root
   \<and> source w_m2 = Some w_m1 \<and> source w_m3 = Some w_m2
   \<and> trace w_m3 None = [w_root, w_m1, w_m2, w_m3]
   \<and> root w_m3 = w_root
   \<and> last_tagged w_m3 ''lm-response'' = Some w_m1
   \<and> last_tagged w_m3 ''rendered'' = None"
proof -
  have s: "source w_root = None" "source w_m1 = Some w_root"
    "source w_m2 = Some w_m1" "source w_m3 = Some w_m2"
    by (simp_all add: w_root_def w_m1_def w_m2_def w_m3_def user_message_def init_message_def)
  have t: "tags w_root = []" "tags w_m1 = [''lm-response'']"
    "tags w_m2 = [''transformed'']" "tags w_m3 = [''lm-output'']"
    by (simp_all add: w_root_def w_m1_def w_m2_def w_m3_def user_message_def init_message_def)
  from chain_ordering [OF s, of "''lm-response''"] chain_ordering [OF s, of "''rendered''"]
  show ?thesis using s t by simp
qed

text \<open>
  C8. Against a string a message is equal iff its text is that string; against a message of
  the same class it is equal iff text, sender and metadata agree; \<open>UserMessage('hi')\<close> equals
  \<open>'hi'\<close> and differs from \<open>AIMessage('hi')\<close>. This holds of the method \<open>__eq__\<close> and of the
  operator \<open>==\<close> alike. The hash of a message is the hash of its text, so that messages with
  the same text have the same hash.
\<close>

theorem equality_and_hash:
  "msg_eq m (OStr s) = (msg_text m = s)
   \<and> msg_eq (user_message ''hi'') (OStr ''hi'')
   \<and> (cls m = cls m' \<longrightarrow>
        msg_eq m (OMsg m') =
          (msg_text m = msg_text m' \<and> sender m = sender m' \<and> metadata m = metadata m'))
   \<and> \<not> msg_eq (user_message ''hi'') (OMsg (ai_message ''hi''))
   \<and> (msg_text m = msg_text m' \<longrightarrow> msg_hash h m = msg_hash h m')
   \<and> msg_hash h m = h (msg_text m)
   \<and> py_eq m (OStr s) = (msg_text m = s)
   \<and> py_eq (user_message ''hi'') (OStr ''hi'')
   \<and> (cls m = cls m' \<longrightarrow>
        py_eq m (OMsg m') =
          (msg_text m = msg_text m' \<and> sender m = sender m' \<and> metadata m = metadata m'))
   \<and> \<not> py_eq (user_message ''hi'') (OMsg (ai_message ''hi''))"
  by (simp add: isinstance_of_def msg_hash_def user_message_def ai_message_def init_message_def)

theorem equality_and_hash_witness:
  "cls (ai_message ''ok'') = cls (ai_message ''ok'')
   \<and> msg_eq (ai_message ''ok'') (OMsg (ai_message ''ok''))
   \<and> py_eq (ai_message ''ok'') (OMsg (ai_message ''ok''))
   \<and> msg_text (ai_message ''ok'') = msg_text (user_message ''ok'')
   \<and> msg_hash (\<lambda>s. int (length s)) (ai_message ''ok'')
       = msg_hash (\<lambda>s. int (length s)) (user_message ''ok'')
   \<and> msg_hash (\<lambda>s. int (length s)) (ai_message ''ok'') = 2"
  using equality_and_hash [of "ai_message ''ok''" "''ok''" "ai_message ''ok''" "\<lambda>s. int (length s)"]
    equality_and_hash [of "ai_message ''ok''" "''ok''" "user_message ''ok''" "\<lambda>s. int (length s)"]
  by (simp add: user_message_def ai_message_def init_message_def isinstance_of_def)

text \<open>
  C10, as the code has it. For a \<open>Message\<close> \<open>m\<close> and a message \<open>u\<close> of a derived class with
  the same text, sender and metadata, the method \<open>__eq__\<close> is not symmetric: \<open>m.__eq__(u)\<close>
  is true and \<open>u.__eq__(m)\<close> is false. The operator is: \<open>m == u\<close> lets \<open>u.__eq__\<close> decide, as
  \<open>u\<close> is of a subclass, so that \<open>m == u\<close> and \<open>u == m\<close> are both false.
\<close>

theorem equality_not_symmetric:
  assumes "cls m = BaseMessage" and "cls u \<noteq> BaseMessage"
    and "msg_text m = msg_text u" and "sender m = sender u" and "metadata m = metadata u"
  shows "msg_eq m (OMsg u) \<and> \<not> msg_eq u (OMsg m)
    \<and> \<not> py_eq m (OMsg u) \<and> \<not> py_eq u (OMsg m)"
  using assms by (auto simp: isinstance_of_def)

theorem equality_not_symmetric_witness:
  "cls (init_message BaseMessage ''hi'' ''User'' fmempty [] None) = BaseMessage
   \<and> cls (user_message ''hi'') \<noteq> BaseMessage
   \<and> msg_eq (init_message BaseMessage ''hi'' ''User'' fmempty [] None) (OMsg (user_message ''hi''))
   \<and> \<not> msg_eq (user_message ''hi'') (OMsg (init_message BaseMessage ''hi'' ''User'' fmempty [] None))
   \<and> \<not> py_eq (init_message BaseMessage ''hi'' ''User'' fmempty [] None) (OMsg (user_message ''hi''))
   \<and> \<not> py_eq (user_message ''hi'') (OMsg (init_message BaseMessage ''hi'' ''User'' fmempty [] None))"
proof -
  have h: "cls (init_message BaseMessage ''hi'' ''User'' fmempty [] None) = BaseMessage"
    "cls (user_message ''hi'') \<noteq> BaseMessage"
    "msg_text (init_message BaseMessage ''hi'' ''User'' fmempty [] None) = msg_text (user_message ''hi'')"
    "sender (init_message BaseMessage ''hi'' ''User'' fmempty [] None) = sender (user_message ''hi'')"
    "metadata (init_message BaseMessage ''hi'' ''User'' fmempty [] None) = metadata (user_message ''hi'')"
    by (simp_all add: user_message_def init_message_def)
  from equality_not_symmetric [OF h] h(1,2) show ?thesis by blast
qed

text \<open>
  C10 as stated fails for the operator: with \<open>m = Message('hi', sender='User')\<close> and
  \<open>u = UserMessage('hi')\<close>, which agree on text, sender and metadata, \<open>m == u\<close> is false.
\<close>

theorem equality_not_symmetric_counterexample:
  "msg_text (init_message BaseMessage ''hi'' ''User'' fmempty [] None) = msg_text (user_message ''hi'')
   \<and> sender (init_message BaseMessage ''hi'' ''User'' fmempty [] None) = sender (user_message ''hi'')
   \<and> metadata (init_message BaseMessage ''hi'' ''User'' fmempty [] None) = metadata (user_message ''hi'')
   \<and> \<not> py_eq (init_message BaseMessage ''hi'' ''User'' fmempty [] None) (OMsg (user_message ''hi''))"
  by (simp add: user_message_def init_message_def isinstance_of_def)

subsection \<open>Field assignments\<close>

lemma with_updates_sel [simp]:
  "updates (with_updates u m) = u" "errors (with_updates u m) = errors m"
  "msg_text (with_updates u m) = msg_text m" "sender (with_updates u m) = sender m"
  "metadata (with_updates u m) = metadata m" "tags (with_updates u m) = tags m"
  "cls (with_updates u m) = cls m" "source (with_updates u m) = source m"
  by (cases m; simp)+

lemma with_errors_sel [simp]:
  "updates (with_errors e m) = updates m" "errors (with_errors e m) = e"
  "msg_text (with_errors e m) = msg_text m" "sender (with_errors e m) = sender m"
  "metadata (with_errors e m) = metadata m" "tags (with_errors e m) = tags m"
  "cls (with_errors e m) = cls m" "source (with_errors e m) = source m"
  by (cases m; simp)+

lemma with_tags_sel [simp]:
  "updates (with_tags g m) = updates m" "errors (with_tags g m) = errors m"
  "msg_text (with_tags g m) = msg_text m" "sender (with_tags g m) = sender m"
  "metadata (with_tags g m) = metadata m" "tags (with_tags g m) = g"
  "cls (with_tags g m) = cls m" "source (with_tags g m) = source m"
  by (cases m; simp)+

lemma with_text_sel [simp]:
  "updates (with_text x m) = updates m" "errors (with_text x m) = errors m"
  "msg_text (with_text x m) = x" "sender (with_text x m) = sender m"
  "metadata (with_text x m) = metadata m" "tags (with_text x m) = tags m"
  "cls (with_text x m) = cls m" "source (with_text x m) = source m"
  by (cases m; simp)+

lemma with_metadata_sel [simp]:
  "updates (with_metadata d m) = updates m" "errors (with_metadata d m) = errors m"
  "msg_text (with_metadata d m) = msg_text m" "sender (with_metadata d m) = sender m"
  "metadata (with_metadata d m) = d" "tags (with_metadata d m) = tags m"
  "cls (with_metadata d m) = cls m" "source (with_metadata d m) = source m"
  by (cases m; simp)+

lemma on_change_sel [simp]:
  "updates (on_change u m) = updates m ++\<^sub>f u" "errors (on_change u m) = errors m"
  "msg_text (on_change u m) = msg_text m" "sender (on_change u m) = sender m"
  "metadata (on_change u m) = metadata m" "tags (on_change u m) = tags m"
  "cls (on_change u m) = cls m" "source (on_change u m) = source m"
  by (simp_all add: on_change_def)

lemma with_tags_same: "with_tags (tags m) m = m"
  by (cases m) simp

text \<open>
  C7. \<open>m.tag(t)\<close> appends \<open>t\<close> to the tags only when it is not there yet, so that tagging
  twice is tagging once; it leaves \<open>updates\<close>, also those of a scope just opened, and the
  text, sender and metadata as they were.
\<close>

theorem tag_frame:
  "tags (tag t m) = (if t \<in> set (tags m) then tags m else tags m @ [t])
   \<and> tag t (tag t m) = tag t m
   \<and> updates (tag t m) = updates m
   \<and> updates (tag t (with_errors [] (with_updates fmempty m))) = fmempty
   \<and> errors (tag t m) = errors m
   \<and> msg_text (tag t m) = msg_text m
   \<and> sender (tag t m) = sender m
   \<and> metadata (tag t m) = metadata m"
  by (simp add: tag_def tags_append_def)

theorem tag_frame_witness:
  "tags (tag ''rendered'' (user_message ''hi'')) = [''rendered'']
   \<and> tags (tag ''rendered'' (tag ''rendered'' (user_message ''hi''))) = [''rendered'']
   \<and> updates (tag ''rendered'' (user_message ''hi'')) = fmempty"
  using tag_frame [of "''rendered''" "user_message ''hi''"]
  by (simp add: user_message_def init_message_def)

text \<open>
  C6. \<open>update_scope\<close> runs its body on fresh, empty \<open>updates\<close> and \<open>errors\<close>; however the
  body ends, the updates it left are merged into the stashed ones key by key, the later
  winning, and its errors are appended to the stashed ones. For the nesting
  open A, change \<open>x\<close>, open B, change \<open>y\<close>, close B, close A: the updates read in B before its
  exit hold \<open>y\<close> alone, those of A before its exit hold \<open>x\<close> and \<open>y\<close>.
\<close>

theorem update_scope_nesting:
  fixes body :: "message \<Rightarrow> (error + 'a) \<times> message"
  shows
  "(let entered = with_errors [] (with_updates fmempty m);
        r = body entered
    in updates entered = fmempty \<and> errors entered = []
       \<and> fst (update_scope body m) = fst r
       \<and> updates (snd (update_scope body m)) = updates m ++\<^sub>f updates (snd r)
       \<and> errors (snd (update_scope body m)) = errors m @ errors (snd r))
   \<and> (let scope_B = (\<lambda>b. let b' = on_change (fmupd y uy fmempty) b
                          in (Inr (updates b') :: error + (key list, field_update) fmap, b'));
           scope_A = (\<lambda>a. let a1 = on_change (fmupd x ux fmempty) a;
                              (seen_in_B, a2) = update_scope scope_B a1
                          in (Inr (seen_in_B, updates a2)
                                :: error + (error + (key list, field_update) fmap)
                                           \<times> (key list, field_update) fmap, a2))
       in fst (update_scope scope_A m)
            = Inr (Inr (fmupd y uy fmempty), fmupd y uy (fmupd x ux fmempty))
          \<and> updates (snd (update_scope scope_A m))
            = updates m ++\<^sub>f fmupd y uy (fmupd x ux fmempty)
          \<and> fmdom (fmupd y uy fmempty :: (key list, field_update) fmap) = {|y|}
          \<and> fmdom (fmupd y uy (fmupd x ux fmempty)) = {|x, y|})"
proof -
  have add_upd: "\<And>(a :: (key list, field_update) fmap) k v. a ++\<^sub>f fmupd k v fmempty = fmupd k v a"
    by (rule fmap_ext) simp
  have gen: "\<And>(b :: message \<Rightarrow> (error + 'b) \<times> message) n.
      update_scope b n =
        (fst (b (with_errors [] (with_updates fmempty n))),
         with_errors (errors n @ errors (snd (b (with_errors [] (with_updates fmempty n)))))
           (with_updates (updates n ++\<^sub>f updates (snd (b (with_errors [] (with_updates fmempty n)))))
              (snd (b (with_errors [] (with_updates fmempty n))))))"
    by (simp add: update_scope_def Let_def split: prod.split)
  show ?thesis
    by (simp add: gen Let_def add_upd split: prod.split) auto
qed

text \<open>
  C1, at the example: the child holds nothing under \<open>obj0\<close> and its source holds the image.
  With \<open>from_message_chain = False\<close> the lookup still goes to the source and returns the
  image, not the default: the argument is passed on and never tested.
\<close>

theorem get_modality_chain_flag:
  "get ex_child ''obj0'' VNone = GVal VNone
   \<and> source ex_child = Some ex_parent
   \<and> get ex_parent ''obj0'' VNone = GVal (VMod ex_img)
   \<and> get_modality ex_child ''obj0'' VNone True = VMod ex_img
   \<and> get_modality ex_child ''obj0'' VNone False = VMod ex_img
   \<and> get_modality ex_child ''obj0'' VNone False \<noteq> VNone
   \<and> get_modality m n d False = get_modality m n d True"
proof -
  have flag: "get_modality m n d False = get_modality m n d True"
  proof (induction m)
    case (Message c t s md tg up er src)
    show ?case
    proof (cases src)
      case None
      then show ?thesis by (simp split: got.splits val.splits)
    next
      case (Some p)
      with Message have "get_modality p n d False = get_modality p n d True"
        by simp
      with Some show ?thesis by (simp split: got.splits val.splits)
    qed
  qed
  have ex: "get ex_child ''obj0'' VNone = GVal VNone"
    "source ex_child = Some ex_parent"
    "get ex_parent ''obj0'' VNone = GVal (VMod ex_img)"
    "get_modality ex_child ''obj0'' VNone True = VMod ex_img"
    "get_modality ex_child ''obj0'' VNone False = VMod ex_img"
    by (simp_all add: ex_child_def ex_parent_def init_message_def get_def sym_get_def
        parse_path_def PATH_TEXT_def field_key_def)
  from flag ex show ?thesis by simp
qed


subsection \<open>Structural update and read\<close>

lemma rebind_path_query:
  "rebind_path ks v c = Inr c' \<Longrightarrow> v \<noteq> VMissing \<Longrightarrow> query ks c' = Some v"
  by (induction ks v c arbitrary: c' rule: rebind_path.induct)
     (auto split: sum.splits if_splits option.splits simp: nth_append)

lemma rebind_path_delete:
  "rebind_path (ks @ [KField k]) VMissing c = Inr c' \<Longrightarrow> query (ks @ [KField k]) c' = None"
proof (induction ks arbitrary: c c')
  case Nil
  then show ?case by (cases c) auto
next
  case (Cons a ks)
  obtain b bs where bs: "ks @ [KField k] = b # bs"
    by (cases ks) auto
  from Cons.IH have IH: "\<And>c c'. rebind_path (b # bs) VMissing c = Inr c' \<Longrightarrow> query (b # bs) c' = None"
    by (simp add: bs)
  from Cons.prems have p: "rebind_path (a # b # bs) VMissing c = Inr c'"
    by (simp add: bs)
  have "query (a # b # bs) c' = None"
  proof (cases a)
    case (KField f)
    with p show ?thesis
      by (cases c) (auto split: sum.splits dest: IH)
  next
    case (KIndex i)
    with p show ?thesis
      by (cases c) (auto split: sum.splits if_splits simp: nth_append dest: IH)
  qed
  then show ?case by (simp add: bs)
qed

lemma rebind_path_noop:
  "query ks c = Some v \<Longrightarrow> ks \<noteq> [] \<Longrightarrow> v \<noteq> VMissing \<Longrightarrow> rebind_path ks v c = Inr c"
proof (induction ks v c rule: rebind_path.induct)
  case (2 k v d)
  then have "fmupd k v d = d"
    by (intro fmap_ext) (auto split: option.splits)
  with 2 show ?case by simp
next
  case (4 k a as v d)
  then obtain c0 where c0: "fmlookup d k = Some c0" "query (a # as) c0 = Some v"
    by (auto split: option.splits)
  with 4 have "rebind_path (a # as) v c0 = Inr c0" by simp
  moreover have "fmupd k c0 d = d"
    using c0 by (intro fmap_ext) auto
  ultimately show ?case using c0 by simp
qed (auto split: if_splits)


lemma rebind_metadata_Inr:
  assumes "rebind_metadata m p v = Inr m'"
  shows "\<exists>ks. parse_path p = Some ks \<and> rebind_path ks v (VDict (metadata m)) = Inr (VDict (metadata m'))"
    and "msg_text m' = msg_text m" and "sender m' = sender m" and "tags m' = tags m"
    and "cls m' = cls m" and "source m' = source m"
  using assms
  by (auto simp: rebind_metadata_def split: option.splits sum.splits val.splits if_splits)


lemma parse_path_root: "parse_path [] = Some []"
  by (simp add: parse_path_def field_key_def)

lemma parse_path_y: "parse_path ''y'' = Some [KField ''y'']"
  by (simp add: parse_path_def field_key_def)


lemma fmap_neqI: "fmlookup a k \<noteq> fmlookup b k \<Longrightarrow> a \<noteq> b"
  by auto

lemma metadata_ex_msg:
  "metadata ex_msg =
     fmupd ''x'' (VDict (fmupd ''k'' (VList [VInt 0, VInt 1]) fmempty)) (fmupd ''y'' (VInt 2) fmempty)"
  by (simp add: ex_msg_def init_message_def)


lemma set_ex_msg_y5: "set_msg ex_msg ''y'' (VInt 5) = Inr ex_msg_y5"
proof -
  have "fmupd ''y'' (VInt 5) (metadata ex_msg) \<noteq> metadata ex_msg"
    by (rule fmap_neqI [of _ "''y''"]) (simp add: metadata_ex_msg)
  then show ?thesis
    by (simp add: set_msg_def PATH_TEXT_def rebind_metadata_def parse_path_y ex_msg_y5_def)
       (simp add: metadata_ex_msg)
qed

lemma set_ex_msg_del: "set_msg ex_msg ''y'' VMissing = Inr ex_msg_del"
proof -
  have "fmdrop ''y'' (metadata ex_msg) \<noteq> metadata ex_msg"
    by (rule fmap_neqI [of _ "''y''"]) (simp add: metadata_ex_msg)
  then show ?thesis
    by (simp add: set_msg_def PATH_TEXT_def rebind_metadata_def parse_path_y ex_msg_del_def)
       (simp add: metadata_ex_msg)
qed

lemma set_ex_msg_ref: "set_msg (ai_message ''foo'') ''y'' (VRef (VMod ex_img)) = Inr ex_msg_ref"
proof -
  have "fmupd ''y'' (VRef (VMod ex_img)) fmempty \<noteq> (fmempty :: (string, val) fmap)"
    by (rule fmap_neqI [of _ "''y''"]) simp
  then show ?thesis
    by (simp add: set_msg_def PATH_TEXT_def rebind_metadata_def parse_path_y ex_msg_ref_def
        ai_message_def init_message_def)
qed






text \<open>
  C4, as the code has it, for a path \<open>p\<close> other than \<open>''\<close> and \<open>'text'\<close>. After \<open>set(p, v)\<close>
  with a value other than the missing sentinel, \<open>get(p)\<close> returns \<open>v\<close>, and the referent of
  \<open>v\<close> when \<open>v\<close> is a \<open>pg.Ref\<close>. After \<open>set(p, MISSING)\<close> at a path that ends in a mapping key,
  \<open>get(p, default)\<close> returns the default (its referent when the default is a \<open>pg.Ref\<close>).
  Setting the value a location already holds returns without error and leaves the message,
  its \<open>updates\<close> included, as it was.
\<close>

theorem path_duality:
  assumes "p \<noteq> PATH_ROOT" and "p \<noteq> PATH_TEXT"
  shows "(set_msg m p v = Inr m1 \<and> v \<noteq> VMissing \<longrightarrow>
            get m1 p d = GVal (case v of VRef x \<Rightarrow> x | _ \<Rightarrow> v))
     \<and> (set_msg m p VMissing = Inr m2 \<and> parse_path p = Some (ks @ [KField k]) \<longrightarrow>
            get m2 p d = GVal (case d of VRef x \<Rightarrow> x | _ \<Rightarrow> d))
     \<and> (parse_path p = Some ks' \<and> ks' \<noteq> [] \<and> query ks' (VDict (metadata m)) = Some old
          \<and> old \<noteq> VMissing \<longrightarrow> set_msg m p old = Inr m)"
proof -
  have a: "get m1 p d = GVal (case v of VRef x \<Rightarrow> x | _ \<Rightarrow> v)"
    if "set_msg m p v = Inr m1" "v \<noteq> VMissing"
  proof -
    from that assms have r: "rebind_metadata m p v = Inr m1" by (simp add: set_msg_def)
    from rebind_metadata_Inr(1) [OF r] obtain ks where ks: "parse_path p = Some ks"
      "rebind_path ks v (VDict (metadata m)) = Inr (VDict (metadata m1))" by blast
    from rebind_path_query [OF ks(2) that(2)] ks(1) have "sym_get (metadata m1) p d = v"
      by (simp add: sym_get_def)
    with assms show ?thesis by (simp add: get_def PATH_ROOT_def)
  qed
  have b: "get m2 p d = GVal (case d of VRef x \<Rightarrow> x | _ \<Rightarrow> d)"
    if "set_msg m p VMissing = Inr m2" "parse_path p = Some (ks @ [KField k])"
  proof -
    from that assms have r: "rebind_metadata m p VMissing = Inr m2" by (simp add: set_msg_def)
    from rebind_metadata_Inr(1) [OF r] that(2)
    have "rebind_path (ks @ [KField k]) VMissing (VDict (metadata m)) = Inr (VDict (metadata m2))"
      by auto
    from rebind_path_delete [OF this] that(2) have "sym_get (metadata m2) p d = d"
      by (simp add: sym_get_def)
    with assms show ?thesis by (simp add: get_def PATH_ROOT_def)
  qed
  have c: "set_msg m p old = Inr m"
    if "parse_path p = Some ks'" "ks' \<noteq> []" "query ks' (VDict (metadata m)) = Some old"
      "old \<noteq> VMissing"
    using rebind_path_noop [OF that(3) that(2) that(4)] that(1) assms
    by (simp add: set_msg_def rebind_metadata_def)
  from a b c show ?thesis by blast
qed

theorem path_duality_witness:
  "''y'' \<noteq> PATH_ROOT \<and> ''y'' \<noteq> PATH_TEXT
   \<and> set_msg ex_msg ''y'' (VInt 5) = Inr ex_msg_y5 \<and> get ex_msg_y5 ''y'' VNone = GVal (VInt 5)
   \<and> set_msg ex_msg ''y'' VMissing = Inr ex_msg_del \<and> parse_path ''y'' = Some ([] @ [KField ''y''])
   \<and> get ex_msg_del ''y'' (VInt 7) = GVal (VInt 7)
   \<and> query [KField ''y''] (VDict (metadata ex_msg)) = Some (VInt 2)
   \<and> set_msg ex_msg ''y'' (VInt 2) = Inr ex_msg"
proof -
  have h: "''y'' \<noteq> PATH_ROOT" "''y'' \<noteq> PATH_TEXT"
    by (simp_all add: PATH_ROOT_def PATH_TEXT_def)
  have g: "set_msg ex_msg ''y'' (VInt 5) = Inr ex_msg_y5" "VInt 5 \<noteq> VMissing"
    "set_msg ex_msg ''y'' VMissing = Inr ex_msg_del" "parse_path ''y'' = Some ([] @ [KField ''y''])"
    "parse_path ''y'' = Some [KField ''y'']" "[KField ''y''] \<noteq> []"
    "query [KField ''y''] (VDict (metadata ex_msg)) = Some (VInt 2)" "VInt 2 \<noteq> VMissing"
    by (simp_all add: set_ex_msg_y5 set_ex_msg_del parse_path_y metadata_ex_msg)
  from path_duality [OF h, where m = ex_msg and v = "VInt 5" and ?m1.0 = ex_msg_y5 and d = VNone
      and ?m2.0 = ex_msg_del and ks = "[]" and k = "''y''" and ks' = "[KField ''y'']" and old = "VInt 2"]
    path_duality [OF h, where m = ex_msg and v = "VInt 5" and ?m1.0 = ex_msg_y5 and d = "VInt 7"
      and ?m2.0 = ex_msg_del and ks = "[]" and k = "''y''" and ks' = "[KField ''y'']" and old = "VInt 2"]
    h g
  show ?thesis by simp
qed

text \<open>
  C4 as stated fails for a \<open>pg.Ref\<close>: after \<open>AIMessage('foo').set('y', pg.Ref(ex_img))\<close>,
  \<open>get('y')\<close> returns the image itself, not the reference that was set.
\<close>

theorem path_duality_counterexample:
  "set_msg (ai_message ''foo'') ''y'' (VRef (VMod ex_img)) = Inr ex_msg_ref
   \<and> get ex_msg_ref ''y'' VNone = GVal (VMod ex_img)
   \<and> get ex_msg_ref ''y'' VNone \<noteq> GVal (VRef (VMod ex_img))"
  by (simp add: set_ex_msg_ref)
     (simp add: ex_msg_ref_def get_def PATH_TEXT_def sym_get_def parse_path_y)


subsection \<open>Chunking\<close>

lemma get_modality_range:
  "get_modality m n VNone f = VNone \<or> (\<exists>x. get_modality m n VNone f = VMod x)"
proof (induction m)
  case (Message c t s md tg up er src)
  show ?case
  proof (cases src)
    case None
    then show ?thesis by (simp split: got.splits val.splits)
  next
    case (Some p)
    with Message have "get_modality p n VNone f = VNone \<or> (\<exists>x. get_modality p n VNone f = VMod x)"
      by simp
    with Some show ?thesis by (auto split: got.splits val.splits)
  qed
qed

lemma add_text_chunk_is_chunk:
  "list_all is_chunk chunks \<Longrightarrow> list_all is_chunk (add_text_chunk chunks s)"
  by (simp add: add_text_chunk_def is_chunk_def)

lemma chunk_loop_is_chunk:
  "list_all is_chunk chunks \<Longrightarrow> list_all is_chunk (chunk_loop m chunks chunk_start ref_end)"
proof (induction m chunks chunk_start ref_end rule: chunk_loop.induct)
  case (1 m chunks chunk_start ref_end)
  show ?case
  proof (cases "chunk_start < length (msg_text m)")
    case False
    with 1 show ?thesis by (simp add: chunk_loop.simps [of m chunks])
  next
    case True
    note lt = this
    show ?thesis
    proof (cases "str_find (msg_text m) REF_START ref_end")
      case None
      with lt 1 show ?thesis
        by (simp add: chunk_loop.simps [of m chunks] add_text_chunk_is_chunk)
    next
      case (Some ref_start)
      note rs = this
      show ?thesis
      proof (cases "str_find (msg_text m) REF_END (ref_start + length REF_START)")
        case None
        with lt rs 1 show ?thesis
          by (simp add: chunk_loop.simps [of m chunks] add_text_chunk_is_chunk)
      next
        case (Some ref_end')
        let ?name = "strip (slice (msg_text m) (ref_start + length REF_START) ref_end')"
        let ?v = "get_modality m ?name VNone True"
        show ?thesis
        proof (cases "?v = VNone")
          case True
          with lt rs Some 1 show ?thesis
            by (simp add: chunk_loop.simps [of m chunks chunk_start ref_end])
        next
          case False
          with get_modality_range [of m ?name True] obtain x where x: "?v = VMod x" by auto
          have "list_all is_chunk
                  (add_text_chunk chunks (strip (slice (msg_text m) chunk_start ref_start)) @ [?v])"
            using 1(3) x by (simp add: add_text_chunk_is_chunk) (simp add: is_chunk_def)
          with 1(1) [OF lt rs Some refl refl False] lt rs Some False show ?thesis
            by (simp add: chunk_loop.simps [of m chunks chunk_start ref_end])
        qed
      qed
    qed
  qed
qed

text \<open>
  C9. \<open>chunk\<close> is a total function: it returns a list for every message. In a round of its
  loop, a start delimiter without an end delimiter after it makes the rest of the text from
  \<open>chunk_start\<close> the final chunk, untrimmed; no further start delimiter makes the trimmed
  rest the final chunk, when it is not empty. The result holds modalities and texts that
  are not empty, and nothing else.
\<close>

theorem chunk_degrades:
  "(chunk_start < length (msg_text m)
      \<and> str_find (msg_text m) REF_START ref_end = Some ref_start
      \<and> str_find (msg_text m) REF_END (ref_start + length REF_START) = None
      \<longrightarrow> chunk_loop m chunks chunk_start ref_end = chunks @ [VStr (drop chunk_start (msg_text m))])
   \<and> (chunk_start < length (msg_text m) \<and> str_find (msg_text m) REF_START ref_end = None
      \<longrightarrow> chunk_loop m chunks chunk_start ref_end =
            add_text_chunk chunks (strip (drop chunk_start (msg_text m))))
   \<and> (str_find (msg_text m) REF_START 0 = Some ref_start
      \<and> str_find (msg_text m) REF_END (ref_start + length REF_START) = None
      \<longrightarrow> chunk m = [VStr (msg_text m)])
   \<and> (str_find (msg_text m) REF_START 0 = None
      \<longrightarrow> chunk m = (if strip (msg_text m) = [] then [] else [VStr (strip (msg_text m))]))
   \<and> list_all is_chunk (chunk m)
   \<and> VStr [] \<notin> set (chunk m)"
proof -
  have a: "chunk_loop m chunks chunk_start ref_end = chunks @ [VStr (drop chunk_start (msg_text m))]"
    if "chunk_start < length (msg_text m)"
      "str_find (msg_text m) REF_START ref_end = Some ref_start"
      "str_find (msg_text m) REF_END (ref_start + length REF_START) = None"
    for chunks chunk_start ref_end
    using that by (simp add: chunk_loop.simps [of m chunks] add_text_chunk_def)
  have b: "chunk_loop m chunks chunk_start ref_end =
            add_text_chunk chunks (strip (drop chunk_start (msg_text m)))"
    if "chunk_start < length (msg_text m)" "str_find (msg_text m) REF_START ref_end = None"
    for chunks chunk_start ref_end
    using that by (simp add: chunk_loop.simps [of m chunks])
  have c: "chunk m = [VStr (msg_text m)]"
    if "str_find (msg_text m) REF_START 0 = Some ref_start"
      "str_find (msg_text m) REF_END (ref_start + length REF_START) = None"
  proof -
    from str_find_bounds [OF that(1)] have "0 < length (msg_text m)"
      by (auto simp: REF_START_def)
    from a [OF this that] show ?thesis by (simp add: chunk_def)
  qed
  have d: "chunk m = (if strip (msg_text m) = [] then [] else [VStr (strip (msg_text m))])"
    if "str_find (msg_text m) REF_START 0 = None"
  proof (cases "msg_text m = []")
    case True
    then show ?thesis
      by (simp add: chunk_def chunk_loop.simps [of m "[]"] strip_def lstrip_def rstrip_def)
  next
    case False
    then have "0 < length (msg_text m)" by simp
    from b [OF this that] show ?thesis by (simp add: chunk_def add_text_chunk_def)
  qed
  have e: "list_all is_chunk (chunk m)"
    unfolding chunk_def by (rule chunk_loop_is_chunk) simp
  then have f: "VStr [] \<notin> set (chunk m)"
    by (auto simp: list_all_iff is_chunk_def)
  from a b c d e f show ?thesis by blast
qed

lemma find_start_unclosed: "str_find ''hello {{x world  '' REF_START 0 = Some 6"
  by (simp add: str_find_def REF_START_def)

lemma find_end_unclosed: "str_find ''hello {{x world  '' REF_END (6 + length REF_START) = None"
  by (simp add: str_find_def REF_END_def REF_START_def)

lemma find_start_plain: "str_find ''hello world  '' REF_START 0 = None"
  by (simp add: str_find_def REF_START_def)

lemma strip_plain: "strip ''hello world  '' = ''hello world''"
  by (simp add: strip_def lstrip_def rstrip_def is_space_def)

theorem chunk_degrades_witness:
  "str_find (msg_text (user_message ''hello {{x world  '')) REF_START 0 = Some 6
   \<and> str_find (msg_text (user_message ''hello {{x world  '')) REF_END (6 + length REF_START) = None
   \<and> chunk (user_message ''hello {{x world  '') = [VStr ''hello {{x world  '']
   \<and> str_find (msg_text (user_message ''hello world  '')) REF_START 0 = None
   \<and> chunk (user_message ''hello world  '') = [VStr ''hello world'']"
proof -
  have t: "msg_text (user_message ''hello {{x world  '') = ''hello {{x world  ''"
    "msg_text (user_message ''hello world  '') = ''hello world  ''"
    by (simp_all add: user_message_def init_message_def)
  have h: "str_find (msg_text (user_message ''hello {{x world  '')) REF_START 0 = Some 6"
    "str_find (msg_text (user_message ''hello {{x world  '')) REF_END (6 + length REF_START) = None"
    "str_find (msg_text (user_message ''hello world  '')) REF_START 0 = None"
    unfolding t by (rule find_start_unclosed find_end_unclosed find_start_plain)+
  from chunk_degrades [where m = "user_message ''hello {{x world  ''" and ref_start = 6
      and chunk_start = 0 and ref_end = 0 and chunks = "[]"]
    chunk_degrades [where m = "user_message ''hello world  ''" and ref_start = 0
      and chunk_start = 0 and ref_end = 0 and chunks = "[]"]
    h
  show ?thesis by (simp add: t strip_plain)
qed

subsection \<open>Decimal numerals\<close>

lemma of_char_digit_char: "d < 10 \<Longrightarrow> (of_char (digit_char d) :: nat) = 48 + d"
  by (simp add: digit_char_def)

lemma digit_val_digit_char: "d < 10 \<Longrightarrow> digit_val (digit_char d) = d"
  by (simp add: digit_val_def of_char_digit_char)

lemma is_digit_digit_char: "d < 10 \<Longrightarrow> is_digit (digit_char d)"
  by (simp add: is_digit_def of_char_digit_char)

lemma str_nat_digits: "list_all is_digit (str_nat n)"
proof (induction n rule: str_nat.induct)
  case (1 n)
  show ?case
  proof (cases "n < 10")
    case True
    then show ?thesis by (simp add: str_nat.simps [of n] is_digit_digit_char)
  next
    case False
    with 1 show ?thesis by (simp add: str_nat.simps [of n] is_digit_digit_char)
  qed
qed

lemma str_nat_not_Nil: "str_nat n \<noteq> []"
  by (simp add: str_nat.simps [of n])

lemma nat_of_digits_snoc: "nat_of_digits (ds @ [c]) = 10 * nat_of_digits ds + digit_val c"
  by (simp add: nat_of_digits_def)

lemma nat_of_digits_str_nat: "nat_of_digits (str_nat n) = n"
proof (induction n rule: str_nat.induct)
  case (1 n)
  show ?case
  proof (cases "n < 10")
    case True
    then show ?thesis
      by (simp add: str_nat.simps [of n] nat_of_digits_def digit_val_digit_char)
  next
    case False
    with 1 have "nat_of_digits (str_nat (n div 10)) = n div 10" by simp
    with False show ?thesis
      by (simp add: str_nat.simps [of n] nat_of_digits_snoc digit_val_digit_char)
  qed
qed

lemma str_nat_inj: "str_nat a = str_nat b \<Longrightarrow> a = b"
  by (metis nat_of_digits_str_nat)

subsection \<open>Searching\<close>

lemma find_first_Nil [simp]: "find_first [c, d] [] = None"
  by simp

lemma find_first_skip:
  "a \<noteq> c \<Longrightarrow> find_first [c, c] (a # q) = map_option Suc (find_first [c, c] q)"
  by simp

lemma find_first_snoc_None:
  "find_first [c, c] q = None \<Longrightarrow> a \<noteq> c \<Longrightarrow> find_first [c, c] (q @ [a]) = None"
proof (induction q)
  case Nil
  then show ?case by simp
next
  case (Cons x q)
  then show ?case by (cases q) (auto split: if_splits)
qed

lemma find_first_prefix_None:
  "find_first [c, c] (a @ b) = None \<Longrightarrow> find_first [c, c] a = None"
proof (induction a)
  case Nil
  then show ?case by simp
next
  case (Cons x a)
  then show ?case by (cases a) (auto split: if_splits)
qed

lemma find_first_suffix_None:
  "find_first [c, c] (a @ b) = None \<Longrightarrow> find_first [c, c] b = None"
  by (induction a) (auto split: if_splits)

lemma find_first_at:
  "find_first [c, c] q = None \<Longrightarrow> (q \<noteq> [] \<Longrightarrow> last q \<noteq> c)
   \<Longrightarrow> find_first [c, c] (q @ c # c # rest) = Some (length q)"
proof (induction q)
  case Nil
  then show ?case by simp
next
  case (Cons x q)
  then show ?case by (cases q) (auto split: if_splits)
qed

lemma find_first_no_char:
  "c \<notin> set q \<Longrightarrow> find_first [c, c] q = None"
  by (induction q) auto


subsection \<open>Reference names\<close>

lemma is_digit_plain:
  "is_digit c \<Longrightarrow> \<not> is_space c \<and> c \<noteq> CHR ''.'' \<and> c \<noteq> CHR ''['' \<and> c \<noteq> CHR '']''
     \<and> c \<noteq> CHR ''{'' \<and> c \<noteq> CHR ''}''"
  by (auto simp: is_digit_def is_space_def Let_def)

lemma obj_name_plain: "list_all plain_char (''obj'' @ str_nat k)"
proof -
  have "list_all plain_char (str_nat k)"
    using str_nat_digits [of k] is_digit_plain by (auto simp: list_all_iff plain_char_def)
  moreover have "list_all plain_char ''obj''"
    by (simp add: plain_char_def is_space_def)
  ultimately show ?thesis by simp
qed

lemma obj_name_inj: "''obj'' @ str_nat a = ''obj'' @ str_nat b \<Longrightarrow> a = b"
  by (simp add: str_nat_inj)

lemma parse_loop_plain:
  "\<forall>c \<in> set s. c \<noteq> CHR ''.'' \<and> c \<noteq> CHR ''['' \<and> c \<noteq> CHR '']''
   \<Longrightarrow> parse_loop 0 cur ks s = Some (ks @ field_key (cur @ s))"
  by (induction s arbitrary: cur) auto

lemma parse_path_plain:
  "list_all plain_char s \<Longrightarrow> s \<noteq> [] \<Longrightarrow> parse_path s = Some [KField s]"
  using parse_loop_plain [of s "[]" "[]"]
  by (auto simp: parse_path_def list_all_iff plain_char_def field_key_def)

lemma lstrip_id: "s = [] \<or> \<not> is_space (hd s) \<Longrightarrow> lstrip s = s"
  by (cases s) (auto simp: lstrip_def)

lemma rstrip_id: "s = [] \<or> \<not> is_space (last s) \<Longrightarrow> rstrip s = s"
  by (cases s rule: rev_cases) (auto simp: rstrip_def)

lemma strip_plain_chars:
  assumes "list_all plain_char s"
  shows "strip s = s"
proof (cases "s = []")
  case True
  then show ?thesis by (simp add: strip_def lstrip_def rstrip_def)
next
  case False
  with assms have "\<not> is_space (hd s)" "\<not> is_space (last s)"
    by (auto simp: list_all_iff plain_char_def)
  then show ?thesis by (simp add: strip_def lstrip_id rstrip_id)
qed

lemma get_modality_own:
  assumes "fmlookup (metadata m) n = Some (maybe_ref (VMod x))"
    and "list_all plain_char n" and "n \<noteq> []" and "n \<noteq> PATH_TEXT"
  shows "get_modality m n VNone f = VMod x"
proof -
  have "sym_get (metadata m) n VNone = maybe_ref (VMod x)"
    using assms by (simp add: sym_get_def parse_path_plain)
  then have "get m n VNone = GVal (VMod x)"
    using assms by (simp add: get_def maybe_ref_def)
  then show ?thesis by (cases m) simp
qed


subsection \<open>One round of the loop at a reference\<close>

lemma plain_not_text: "list_all plain_char n \<Longrightarrow> CHR ''}'' \<notin> set n \<and> CHR ''{'' \<notin> set n"
  by (auto simp: list_all_iff plain_char_def)

lemma chunk_step:
  assumes tx: "msg_text m = P @ w @ text_marker n @ R"
    and plain: "list_all plain_char n" and n0: "n \<noteq> []" and nt: "n \<noteq> PATH_TEXT"
    and md: "fmlookup (metadata m) n = Some (maybe_ref (VMod x))"
    and re: "ref_end \<le> length P"
    and scan: "find_first REF_START (drop ref_end P @ w) = None"
    and lastq: "drop ref_end P @ w \<noteq> [] \<Longrightarrow> last (drop ref_end P @ w) \<noteq> CHR ''{''"
  shows "chunk_loop m chunks (length P) ref_end =
         chunk_loop m (add_text_chunk chunks (strip w) @ [VMod x])
           (length (P @ w @ text_marker n)) (length (P @ w @ text_marker n) - 2)"
proof -
  let ?t = "msg_text m"
  define rs where "rs = length P + length w"
  define vs where "vs = rs + length REF_START"
  define re' where "re' = vs + length n"
  have lt: "length P < length ?t"
    by (simp add: tx text_marker_def REF_START_def)
  have "drop ref_end ?t = (drop ref_end P @ w) @ CHR ''{'' # CHR ''{'' # (n @ REF_END @ R)"
    using re by (simp add: tx text_marker_def REF_START_def)
  with find_first_at [of "CHR ''{''" "drop ref_end P @ w" "n @ REF_END @ R"] scan lastq
  have "find_first REF_START (drop ref_end ?t) = Some (length (drop ref_end P @ w))"
    by (simp add: REF_START_def)
  then have rs: "str_find ?t REF_START ref_end = Some rs"
    using re by (simp add: str_find_def tx rs_def)
  have nc: "CHR ''}'' \<notin> set n" using plain plain_not_text by blast
  have dv: "drop vs ?t = n @ CHR ''}'' # CHR ''}'' # R"
    by (simp add: tx text_marker_def REF_START_def REF_END_def vs_def rs_def)
  have "last n \<noteq> CHR ''}''"
    by (metis nc n0 last_in_set)
  then have "find_first [CHR ''}'', CHR ''}''] (n @ CHR ''}'' # CHR ''}'' # R) = Some (length n)"
    by (intro find_first_at find_first_no_char [OF nc])
  with dv have "find_first REF_END (drop vs ?t) = Some (length n)"
    by (simp add: REF_END_def)
  moreover have "vs \<le> length ?t"
    by (simp add: tx text_marker_def REF_START_def vs_def rs_def)
  ultimately have en: "str_find ?t REF_END (rs + length REF_START) = Some re'"
    by (simp add: str_find_def re'_def vs_def)
  have "slice ?t (rs + length REF_START) re' = n"
    using dv by (simp add: slice_def re'_def vs_def)
  then have name: "strip (slice ?t (rs + length REF_START) re') = n"
    by (simp add: strip_plain_chars [OF plain])
  have val: "get_modality m n VNone True = VMod x"
    by (rule get_modality_own [OF md plain n0 nt])
  have piece: "slice ?t (length P) rs = w"
    by (simp add: slice_def tx rs_def)
  have "chunk_loop m chunks (length P) ref_end =
         chunk_loop m (add_text_chunk chunks (strip w) @ [VMod x]) (re' + length REF_END) re'"
    by (subst chunk_loop.simps) (simp add: lt rs en name val piece Let_def)
  moreover have "re' + length REF_END = length (P @ w @ text_marker n)"
    by (simp add: text_marker_def REF_START_def REF_END_def re'_def vs_def rs_def)
  moreover have "re' = length (P @ w @ text_marker n) - 2"
    by (simp add: text_marker_def REF_START_def REF_END_def re'_def vs_def rs_def)
  ultimately show ?thesis
    by simp
qed


subsection \<open>Trimming\<close>

lemma rstrip_append_nonspace:
  "a \<noteq> [] \<Longrightarrow> \<not> is_space (last a) \<Longrightarrow> rstrip (a @ b) = a @ rstrip b"
  by (cases a rule: rev_cases) (auto simp: rstrip_def dropWhile_append)

lemma rstrip_append_spaces: "\<forall>c \<in> set b. is_space c \<Longrightarrow> rstrip (a @ b) = rstrip a"
  by (simp add: rstrip_def dropWhile_append)

lemma lstrip_append_spaces: "\<forall>c \<in> set a. is_space c \<Longrightarrow> lstrip (a @ b) = lstrip b"
  by (simp add: lstrip_def dropWhile_append)

lemma lstrip_append_nonspace:
  "a \<noteq> [] \<Longrightarrow> \<not> is_space (hd a) \<Longrightarrow> lstrip (a @ b) = a @ b"
  by (cases a) (auto simp: lstrip_def)

lemma strip_decompose:
  assumes "strip s \<noteq> []"
  obtains a b where "s = a @ strip s @ b" and "\<forall>c \<in> set a. is_space c" and "\<forall>c \<in> set b. is_space c"
    and "\<not> is_space (hd (strip s))" and "\<not> is_space (last (strip s))"
proof -
  let ?a = "takeWhile is_space s"
  let ?t = "dropWhile is_space s"
  let ?b = "rev (takeWhile is_space (rev ?t))"
  have core: "strip s = rev (dropWhile is_space (rev ?t))"
    by (simp add: strip_def lstrip_def rstrip_def)
  have t: "?t = strip s @ ?b"
    unfolding core by (metis rev_append rev_rev_ident takeWhile_dropWhile_id)
  have s: "s = ?a @ strip s @ ?b"
    using t by (metis takeWhile_dropWhile_id)
  have sa: "\<forall>c \<in> set ?a. is_space c"
    by (auto dest: set_takeWhileD)
  have sb: "\<forall>c \<in> set ?b. is_space c"
    by (auto dest: set_takeWhileD)
  from assms core have ne: "dropWhile is_space (rev ?t) \<noteq> []" by simp
  then have "\<not> is_space (hd (dropWhile is_space (rev ?t)))"
    by (rule hd_dropWhile)
  then have l: "\<not> is_space (last (strip s))"
    using ne by (simp add: core last_rev)
  from assms t have tne: "?t \<noteq> []" by (metis append_is_Nil_conv)
  then have "\<not> is_space (hd ?t)" by (rule hd_dropWhile)
  moreover have "hd ?t = hd (strip s)"
    using t assms by (metis hd_append2)
  ultimately have h: "\<not> is_space (hd (strip s))" by simp
  from s sa sb h l show ?thesis by (rule that)
qed

lemma strip_pad:
  assumes "\<forall>c \<in> set a. is_space c" and "\<forall>c \<in> set b. is_space c"
    and "core \<noteq> []" and "\<not> is_space (hd core)" and "\<not> is_space (last core)"
  shows "strip (a @ core @ b) = core"
proof -
  have "lstrip (a @ core @ b) = core @ b"
    using assms by (simp add: lstrip_append_spaces lstrip_append_nonspace)
  moreover have "rstrip (core @ b) = core"
    using assms by (simp add: rstrip_append_spaces rstrip_id)
  ultimately show ?thesis by (simp add: strip_def)
qed

lemma strip_spaces:
  assumes "\<forall>c \<in> set a. is_space c"
  shows "strip a = []"
proof -
  from assms have "lstrip a = []" by (simp add: lstrip_def)
  then show ?thesis by (simp add: strip_def rstrip_def)
qed

lemma is_space_newline: "\<forall>c \<in> set newline. is_space c"
  by (simp add: newline_def is_space_def)


subsection \<open>Acceptable text chunks\<close>

lemma str_find_0: "str_find s sub 0 = find_first sub s"
  by (cases "find_first sub s") (simp_all add: str_find_def)

lemma ok_text_between:
  assumes "ok_text s"
  shows "strip (newline @ s @ newline) = strip s"
    and "find_first REF_START (''}}'' @ newline @ s @ newline) = None"
proof -
  from assms have ne: "strip s \<noteq> []" and nf: "find_first REF_START s = None"
    by (simp_all add: ok_text_def str_find_0)
  from strip_decompose [OF ne] obtain a b where d: "s = a @ strip s @ b"
    "\<forall>c \<in> set a. is_space c" "\<forall>c \<in> set b. is_space c"
    "\<not> is_space (hd (strip s))" "\<not> is_space (last (strip s))" by blast
  have "strip ((newline @ a) @ strip s @ (b @ newline)) = strip s"
    using d(2,3) is_space_newline ne d(4,5) by (intro strip_pad) auto
  with d(1) show "strip (newline @ s @ newline) = strip s"
    by (metis append.assoc)
  have "find_first REF_START (s @ newline) = None"
    using nf by (simp add: REF_START_def newline_def find_first_snoc_None)
  then show "find_first REF_START (''}}'' @ newline @ s @ newline) = None"
    by (simp add: REF_START_def newline_def)
qed

lemma ok_text_last:
  assumes "ok_text s"
  shows "strip (newline @ rstrip s) = strip s"
    and "find_first REF_START (''}}'' @ newline @ rstrip s) = None"
    and "rstrip s \<noteq> []" and "\<not> is_space (last (rstrip s))"
proof -
  from assms have ne: "strip s \<noteq> []" and nf: "find_first REF_START s = None"
    by (simp_all add: ok_text_def str_find_0)
  from strip_decompose [OF ne] obtain a b where d: "s = a @ strip s @ b"
    "\<forall>c \<in> set a. is_space c" "\<forall>c \<in> set b. is_space c"
    "\<not> is_space (hd (strip s))" "\<not> is_space (last (strip s))" by blast
  have "rstrip ((a @ strip s) @ b) = a @ strip s"
    using d(3,5) ne by (simp only: rstrip_append_spaces) (simp add: rstrip_id)
  with d(1) have r: "rstrip s = a @ strip s" by (metis append.assoc)
  from r ne show "rstrip s \<noteq> []" by simp
  from r ne d(5) show "\<not> is_space (last (rstrip s))" by simp
  have "strip ((newline @ a) @ strip s @ []) = strip s"
    using d(2) is_space_newline ne d(4,5) by (intro strip_pad) auto
  with r show "strip (newline @ rstrip s) = strip s" by simp
  from nf d(1) r have "find_first REF_START (rstrip s @ b) = None" by simp
  then have "find_first REF_START (rstrip s) = None"
    unfolding REF_START_def by (rule find_first_prefix_None)
  then show "find_first REF_START (''}}'' @ newline @ rstrip s) = None"
    by (simp add: REF_START_def newline_def)
qed

lemma ok_text_first:
  assumes "ok_text s"
  shows "strip (lstrip s @ newline) = strip s"
    and "find_first REF_START (lstrip s @ newline) = None"
    and "lstrip s \<noteq> []" and "\<not> is_space (hd (lstrip s))"
proof -
  from assms have ne: "strip s \<noteq> []" and nf: "find_first REF_START s = None"
    by (simp_all add: ok_text_def str_find_0)
  from strip_decompose [OF ne] obtain a b where d: "s = a @ strip s @ b"
    "\<forall>c \<in> set a. is_space c" "\<forall>c \<in> set b. is_space c"
    "\<not> is_space (hd (strip s))" "\<not> is_space (last (strip s))" by blast
  have "lstrip (a @ strip s @ b) = strip s @ b"
    using d(2,4) ne by (simp add: lstrip_append_spaces lstrip_append_nonspace)
  with d(1) have l: "lstrip s = strip s @ b" by simp
  from l ne show "lstrip s \<noteq> []" by simp
  from l ne d(4) show "\<not> is_space (hd (lstrip s))" by simp
  have "strip ([] @ strip s @ (b @ newline)) = strip s"
    using d(3) is_space_newline ne d(4,5) by (intro strip_pad) auto
  with l show "strip (lstrip s @ newline) = strip s" by simp
  from nf d(1) l have "find_first REF_START (a @ lstrip s) = None" by simp
  then have "find_first REF_START (lstrip s) = None"
    unfolding REF_START_def by (rule find_first_suffix_None)
  then show "find_first REF_START (lstrip s @ newline) = None"
    by (simp add: REF_START_def newline_def find_first_snoc_None)
qed

lemma ok_text_alone:
  assumes "ok_text s"
  shows "strip (strip s) = strip s" and "find_first REF_START (strip s) = None"
proof -
  from assms have ne: "strip s \<noteq> []" and nf: "find_first REF_START s = None"
    by (simp_all add: ok_text_def str_find_0)
  from strip_decompose [OF ne] obtain a b where d: "s = a @ strip s @ b"
    "\<forall>c \<in> set a. is_space c" "\<forall>c \<in> set b. is_space c"
    "\<not> is_space (hd (strip s))" "\<not> is_space (last (strip s))" by blast
  have "strip ([] @ strip s @ []) = strip s"
    using ne d(4,5) by (intro strip_pad) auto
  then show "strip (strip s) = strip s" by simp
  from nf d(1) have "find_first REF_START (a @ (strip s @ b)) = None" by simp
  then have "find_first REF_START (strip s @ b) = None"
    unfolding REF_START_def by (rule find_first_suffix_None)
  then show "find_first REF_START (strip s) = None"
    unfolding REF_START_def by (rule find_first_prefix_None)
qed


subsection \<open>What fusion writes\<close>

lemma from_chunks_loop_wf:
  "wf_chunks cs \<Longrightarrow>
   from_chunks_loop sep i cs (fused, k, md) =
     Inr (fused @ fused_of sep (0 < i) k cs, k + length (modalities cs), metadata_of k cs md)"
proof (induction cs arbitrary: i fused k md rule: wf_chunks.induct)
  case 1
  then show ?case by simp
next
  case (2 s)
  then show ?case by simp
next
  case (3 s x rest)
  then show ?case by (simp add: Let_def)
next
  case (4 x rest)
  then show ?case by (simp add: Let_def)
qed simp_all

lemma metadata_of_other:
  "\<forall>j \<ge> k. key \<noteq> ''obj'' @ str_nat j \<Longrightarrow> fmlookup (metadata_of k cs md) key = fmlookup md key"
  by (induction k cs md rule: metadata_of.induct) auto

lemma metadata_of_lookup:
  "i < length (modalities cs) \<Longrightarrow>
   fmlookup (metadata_of k cs md) (''obj'' @ str_nat (k + i))
     = Some (maybe_ref (VMod (modalities cs ! i)))"
proof (induction k cs md arbitrary: i rule: metadata_of.induct)
  case (1 k md)
  then show ?case by simp
next
  case (2 k x rest md)
  show ?case
  proof (cases i)
    case 0
    have "\<forall>j \<ge> Suc k. ''obj'' @ str_nat k \<noteq> ''obj'' @ str_nat j"
      by (auto dest: str_nat_inj)
    from metadata_of_other [OF this] 0 show ?thesis by simp
  next
    case (Suc i')
    with 2 show ?thesis by simp
  qed
qed simp_all


subsection \<open>The loop of \<open>chunk\<close> on a fused text\<close>

lemma rstrip_append_right: "rstrip b \<noteq> [] \<Longrightarrow> rstrip (a @ b) = a @ rstrip b"
  by (auto simp: rstrip_def dropWhile_append)

lemma obj_name_facts:
  "list_all plain_char (''obj'' @ str_nat k)" "''obj'' @ str_nat k \<noteq> []"
  "''obj'' @ str_nat k \<noteq> PATH_TEXT"
  using obj_name_plain [of k] by (simp_all add: PATH_TEXT_def)

lemma text_marker_split: "text_marker n = ''{{'' @ n @ ''}}''"
  by (simp add: text_marker_def REF_START_def REF_END_def)

lemma rstrip_after_marker: "rstrip ((a @ text_marker n) @ b) = (a @ text_marker n) @ rstrip b"
  by (rule rstrip_append_nonspace) (simp_all add: text_marker_split is_space_def)

lemma chunk_loop_rest:
  assumes "wf_chunks cs"
    and "\<forall>i < length (modalities cs).
           fmlookup (metadata m) (''obj'' @ str_nat (k + i))
             = Some (maybe_ref (VMod (modalities cs ! i)))"
    and "msg_text m = P0 @ ''}}'' @ rstrip (fused_of newline True k cs)"
  shows "chunk_loop m chunks (length (P0 @ ''}}'')) (length P0) = chunks @ map trim_chunk cs"
  using assms
proof (induction cs arbitrary: k P0 chunks rule: wf_chunks.induct)
  case 1
  then have "msg_text m = P0 @ ''}}''"
    by (simp add: rstrip_def)
  then show ?case
    by (subst chunk_loop.simps) simp
next
  case (2 s)
  then have ok: "ok_text s" by simp
  have "rstrip (newline @ s) = newline @ rstrip s"
    by (rule rstrip_append_right) (rule ok_text_last(3) [OF ok])
  with 2 have tx: "msg_text m = P0 @ ''}}'' @ newline @ rstrip s" by simp
  have lt: "length (P0 @ ''}}'') < length (msg_text m)"
    by (simp add: tx newline_def)
  have "find_first REF_START (drop (length P0) (msg_text m)) = None"
    using ok_text_last(2) [OF ok] by (simp add: tx)
  then have nf: "str_find (msg_text m) REF_START (length P0) = None"
    by (simp add: str_find_def)
  have "drop (length (P0 @ ''}}'')) (msg_text m) = newline @ rstrip s"
    by (simp add: tx)
  then have st: "strip (drop (length (P0 @ ''}}'')) (msg_text m)) = strip s"
    by (simp only: ok_text_last(1) [OF ok])
  have "strip s \<noteq> []" using ok by (simp add: ok_text_def)
  then show ?case
    by (subst chunk_loop.simps) (simp only: lt nf st, simp add: add_text_chunk_def)
next
  case (3 s x rest)
  then have ok: "ok_text s" and wf: "wf_chunks rest" by simp_all
  let ?n = "''obj'' @ str_nat k"
  let ?w = "newline @ s @ newline"
  let ?F = "fused_of newline True (Suc k) rest"
  have "fused_of newline True k (VStr s # VMod x # rest) = (?w @ text_marker ?n) @ ?F"
    by simp
  then have "rstrip (fused_of newline True k (VStr s # VMod x # rest)) = (?w @ text_marker ?n) @ rstrip ?F"
    by (simp only: rstrip_after_marker)
  with 3(4) have tx: "msg_text m = (P0 @ ''}}'') @ ?w @ text_marker ?n @ rstrip ?F"
    by simp
  have md: "fmlookup (metadata m) ?n = Some (maybe_ref (VMod x))"
    using 3(3) by (auto dest: spec [of _ 0])
  have scan: "find_first REF_START (drop (length P0) (P0 @ ''}}'') @ ?w) = None"
    using ok_text_between(2) [OF ok] by simp
  have lastq: "last (drop (length P0) (P0 @ ''}}'') @ ?w) \<noteq> CHR ''{''"
    by (simp add: newline_def)
  have step: "chunk_loop m chunks (length (P0 @ ''}}'')) (length P0) =
      chunk_loop m (add_text_chunk chunks (strip ?w) @ [VMod x])
        (length ((P0 @ ''}}'') @ ?w @ text_marker ?n))
        (length ((P0 @ ''}}'') @ ?w @ text_marker ?n) - 2)"
    by (rule chunk_step [OF tx obj_name_facts md _ scan lastq]) simp
  let ?P1 = "P0 @ ''}}'' @ ?w @ ''{{'' @ ?n"
  have p1: "(P0 @ ''}}'') @ ?w @ text_marker ?n = ?P1 @ ''}}''"
    by (simp add: text_marker_split)
  have tx1: "msg_text m = ?P1 @ ''}}'' @ rstrip ?F"
    using tx by (simp add: text_marker_split)
  have lk1: "\<forall>i < length (modalities rest).
      fmlookup (metadata m) (''obj'' @ str_nat (Suc k + i)) = Some (maybe_ref (VMod (modalities rest ! i)))"
  proof (intro allI impI)
    fix i assume "i < length (modalities rest)"
    then have "Suc i < length (modalities (VStr s # VMod x # rest))" by simp
    with 3(3) have "fmlookup (metadata m) (''obj'' @ str_nat (k + Suc i))
        = Some (maybe_ref (VMod (modalities (VStr s # VMod x # rest) ! Suc i)))" by blast
    then show "fmlookup (metadata m) (''obj'' @ str_nat (Suc k + i)) = Some (maybe_ref (VMod (modalities rest ! i)))"
      by simp
  qed
  have ne: "strip s \<noteq> []" using ok by (simp add: ok_text_def)
  have "chunk_loop m chunks (length (P0 @ ''}}'')) (length P0) =
      chunk_loop m (chunks @ [VStr (strip s), VMod x]) (length (?P1 @ ''}}'')) (length ?P1)"
    unfolding step p1 using ne
    by (simp add: ok_text_between(1) [OF ok] add_text_chunk_def)
  also have "\<dots> = (chunks @ [VStr (strip s), VMod x]) @ map trim_chunk rest"
    by (rule "3.IH" [OF wf lk1 tx1])
  finally show ?case by simp
next
  case (4 x rest)
  then have wf: "wf_chunks rest" by simp
  let ?n = "''obj'' @ str_nat k"
  let ?w = "newline"
  let ?F = "fused_of newline True (Suc k) rest"
  have "fused_of newline True k (VMod x # rest) = (?w @ text_marker ?n) @ ?F"
    by simp
  then have "rstrip (fused_of newline True k (VMod x # rest)) = (?w @ text_marker ?n) @ rstrip ?F"
    by (simp only: rstrip_after_marker)
  with 4(4) have tx: "msg_text m = (P0 @ ''}}'') @ ?w @ text_marker ?n @ rstrip ?F"
    by simp
  have md: "fmlookup (metadata m) ?n = Some (maybe_ref (VMod x))"
    using 4(3) by (auto dest: spec [of _ 0])
  have scan: "find_first REF_START (drop (length P0) (P0 @ ''}}'') @ ?w) = None"
    by (simp add: REF_START_def newline_def)
  have lastq: "last (drop (length P0) (P0 @ ''}}'') @ ?w) \<noteq> CHR ''{''"
    by (simp add: newline_def)
  have step: "chunk_loop m chunks (length (P0 @ ''}}'')) (length P0) =
      chunk_loop m (add_text_chunk chunks (strip ?w) @ [VMod x])
        (length ((P0 @ ''}}'') @ ?w @ text_marker ?n))
        (length ((P0 @ ''}}'') @ ?w @ text_marker ?n) - 2)"
    by (rule chunk_step [OF tx obj_name_facts md _ scan lastq]) simp
  let ?P1 = "P0 @ ''}}'' @ ?w @ ''{{'' @ ?n"
  have p1: "(P0 @ ''}}'') @ ?w @ text_marker ?n = ?P1 @ ''}}''"
    by (simp add: text_marker_split)
  have tx1: "msg_text m = ?P1 @ ''}}'' @ rstrip ?F"
    using tx by (simp add: text_marker_split)
  have lk1: "\<forall>i < length (modalities rest).
      fmlookup (metadata m) (''obj'' @ str_nat (Suc k + i)) = Some (maybe_ref (VMod (modalities rest ! i)))"
  proof (intro allI impI)
    fix i assume "i < length (modalities rest)"
    then have "Suc i < length (modalities (VMod x # rest))" by simp
    with 4(3) have "fmlookup (metadata m) (''obj'' @ str_nat (k + Suc i))
        = Some (maybe_ref (VMod (modalities (VMod x # rest) ! Suc i)))" by blast
    then show "fmlookup (metadata m) (''obj'' @ str_nat (Suc k + i)) = Some (maybe_ref (VMod (modalities rest ! i)))"
      by simp
  qed
  have "chunk_loop m chunks (length (P0 @ ''}}'')) (length P0) =
      chunk_loop m (chunks @ [VMod x]) (length (?P1 @ ''}}'')) (length ?P1)"
    unfolding step p1
    by (simp add: strip_spaces [OF is_space_newline] add_text_chunk_def)
  also have "\<dots> = (chunks @ [VMod x]) @ map trim_chunk rest"
    by (rule "4.IH" [OF wf lk1 tx1])
  finally show ?case by simp
qed simp_all


subsection \<open>Fusion followed by chunking\<close>

lemma lstrip_append_left: "lstrip a \<noteq> [] \<Longrightarrow> lstrip (a @ b) = lstrip a @ b"
  by (auto simp: lstrip_def dropWhile_append)

lemma lstrip_marker: "lstrip (text_marker n @ b) = text_marker n @ b"
  by (rule lstrip_append_nonspace) (simp_all add: text_marker_split is_space_def)

lemma chunk_fused:
  assumes wf: "wf_chunks cs"
    and lk: "\<forall>i < length (modalities cs).
           fmlookup (metadata m) (''obj'' @ str_nat i) = Some (maybe_ref (VMod (modalities cs ! i)))"
    and tx: "msg_text m = strip (fused_of newline False 0 cs)"
  shows "chunk m = map trim_chunk cs"
proof (cases cs rule: wf_chunks.cases)
  case 1
  with tx have "msg_text m = []" by (simp add: strip_def lstrip_def rstrip_def)
  with 1 show ?thesis
    by (simp add: chunk_def chunk_loop.simps [of m "[]"])
next
  case (2 s)
  with wf have ok: "ok_text s" by simp
  from tx 2 have t: "msg_text m = strip s" by simp
  have ne: "strip s \<noteq> []" using ok by (simp add: ok_text_def)
  have nf: "str_find (msg_text m) REF_START 0 = None"
    by (simp add: str_find_0 t ok_text_alone(2) [OF ok])
  have lt: "0 < length (msg_text m)" using ne by (simp add: t)
  have "chunk_loop m [] 0 0 = add_text_chunk [] (strip (drop 0 (msg_text m)))"
    by (subst chunk_loop.simps) (simp only: lt nf, simp)
  with 2 ne show ?thesis
    by (simp add: chunk_def t ok_text_alone(1) [OF ok] add_text_chunk_def)
next
  case (3 s x rest)
  with wf have ok: "ok_text s" and wfr: "wf_chunks rest" by simp_all
  let ?n = "''obj'' @ str_nat 0"
  let ?w = "lstrip s @ newline"
  let ?F = "fused_of newline True (Suc 0) rest"
  have "fused_of newline False 0 cs = s @ (newline @ text_marker ?n @ ?F)"
    using 3 by simp
  then have "lstrip (fused_of newline False 0 cs) = (?w @ text_marker ?n) @ ?F"
    by (simp add: lstrip_append_left [OF ok_text_first(3) [OF ok]])
  then have "strip (fused_of newline False 0 cs) = (?w @ text_marker ?n) @ rstrip ?F"
    by (simp only: strip_def rstrip_after_marker)
  with tx have t: "msg_text m = [] @ ?w @ text_marker ?n @ rstrip ?F" by simp
  have md: "fmlookup (metadata m) ?n = Some (maybe_ref (VMod x))"
    using lk 3 by (auto dest: spec [of _ 0])
  have scan: "find_first REF_START (drop 0 [] @ ?w) = None"
    using ok_text_first(2) [OF ok] by simp
  have lastq: "last (drop 0 [] @ ?w) \<noteq> CHR ''{''"
    by (simp add: newline_def)
  have step: "chunk_loop m [] (length ([] :: string)) 0 =
      chunk_loop m (add_text_chunk [] (strip ?w) @ [VMod x])
        (length ([] @ ?w @ text_marker ?n)) (length ([] @ ?w @ text_marker ?n) - 2)"
    by (rule chunk_step [OF t obj_name_facts md _ scan lastq]) simp
  let ?P1 = "?w @ ''{{'' @ ?n"
  have p1: "[] @ ?w @ text_marker ?n = ?P1 @ ''}}''"
    by (simp add: text_marker_split)
  have tx1: "msg_text m = ?P1 @ ''}}'' @ rstrip ?F"
    using t by (simp add: text_marker_split)
  have lk1: "\<forall>i < length (modalities rest).
      fmlookup (metadata m) (''obj'' @ str_nat (Suc 0 + i)) = Some (maybe_ref (VMod (modalities rest ! i)))"
  proof (intro allI impI)
    fix i assume "i < length (modalities rest)"
    then have "Suc i < length (modalities cs)" using 3 by simp
    with lk have "fmlookup (metadata m) (''obj'' @ str_nat (Suc i))
        = Some (maybe_ref (VMod (modalities cs ! Suc i)))" by blast
    then show "fmlookup (metadata m) (''obj'' @ str_nat (Suc 0 + i)) = Some (maybe_ref (VMod (modalities rest ! i)))"
      using 3 by simp
  qed
  have ne: "strip s \<noteq> []" using ok by (simp add: ok_text_def)
  have "chunk_loop m [] 0 0 =
      chunk_loop m ([] @ [VStr (strip s), VMod x]) (length (?P1 @ ''}}'')) (length ?P1)"
    using step unfolding p1 using ne
    by (simp add: ok_text_first(1) [OF ok] add_text_chunk_def)
  also have "\<dots> = ([] @ [VStr (strip s), VMod x]) @ map trim_chunk rest"
    by (rule chunk_loop_rest [OF wfr lk1 tx1])
  finally show ?thesis using 3 by (simp add: chunk_def)
next
  case (4 x rest)
  with wf have wfr: "wf_chunks rest" by simp
  let ?n = "''obj'' @ str_nat 0"
  let ?F = "fused_of newline True (Suc 0) rest"
  have "fused_of newline False 0 cs = text_marker ?n @ ?F"
    using 4 by simp
  then have "lstrip (fused_of newline False 0 cs) = ([] @ text_marker ?n) @ ?F"
    by (simp add: lstrip_marker)
  then have "strip (fused_of newline False 0 cs) = ([] @ text_marker ?n) @ rstrip ?F"
    by (simp only: strip_def rstrip_after_marker)
  with tx have t: "msg_text m = [] @ [] @ text_marker ?n @ rstrip ?F" by simp
  have md: "fmlookup (metadata m) ?n = Some (maybe_ref (VMod x))"
    using lk 4 by (auto dest: spec [of _ 0])
  have scan: "find_first REF_START (drop 0 [] @ []) = None"
    by (simp add: REF_START_def)
  have step: "chunk_loop m [] (length ([] :: string)) 0 =
      chunk_loop m (add_text_chunk [] (strip []) @ [VMod x])
        (length ([] @ [] @ text_marker ?n)) (length ([] @ [] @ text_marker ?n) - 2)"
    by (rule chunk_step [OF t obj_name_facts md _ scan]) simp_all
  let ?P1 = "''{{'' @ ?n"
  have p1: "[] @ [] @ text_marker ?n = ?P1 @ ''}}''"
    by (simp add: text_marker_split)
  have tx1: "msg_text m = ?P1 @ ''}}'' @ rstrip ?F"
    using t by (simp add: text_marker_split)
  have lk1: "\<forall>i < length (modalities rest).
      fmlookup (metadata m) (''obj'' @ str_nat (Suc 0 + i)) = Some (maybe_ref (VMod (modalities rest ! i)))"
  proof (intro allI impI)
    fix i assume "i < length (modalities rest)"
    then have "Suc i < length (modalities cs)" using 4 by simp
    with lk have "fmlookup (metadata m) (''obj'' @ str_nat (Suc i))
        = Some (maybe_ref (VMod (modalities cs ! Suc i)))" by blast
    then show "fmlookup (metadata m) (''obj'' @ str_nat (Suc 0 + i)) = Some (maybe_ref (VMod (modalities rest ! i)))"
      using 4 by simp
  qed
  have "chunk_loop m [] 0 0 =
      chunk_loop m ([] @ [VMod x]) (length (?P1 @ ''}}'')) (length ?P1)"
    using step unfolding p1
    by (simp add: strip_def lstrip_def rstrip_def add_text_chunk_def)
  also have "\<dots> = ([] @ [VMod x]) @ map trim_chunk rest"
    by (rule chunk_loop_rest [OF wfr lk1 tx1])
  finally show ?thesis using 4 by (simp add: chunk_def)
qed (use wf in simp_all)


subsection \<open>The round trip\<close>

lemma digit_char_0: "digit_char 0 = CHR ''0''"
proof -
  have "char_of (of_char CHR ''0'' :: nat) = CHR ''0''"
    by (rule char_of_char)
  then show ?thesis by (simp add: digit_char_def)
qed

lemma str_nat_0: "str_nat 0 = ''0''"
  by (simp add: str_nat.simps [of 0] digit_char_0)

lemma strip_a_b: "strip ''a'' = ''a''" "strip ''b'' = ''b''"
  by (simp_all add: strip_def lstrip_def rstrip_def is_space_def)

lemma from_chunks_ex: "from_chunks UserMessage [VStr ''a'', VMod ex_img, VStr ''b''] newline = Inr ex_fused"
  by (simp add: from_chunks_def new_message_def ex_fused_def str_nat_0 text_marker_def REF_START_def
      REF_END_def maybe_ref_def ex_img_def newline_def strip_def lstrip_def rstrip_def is_space_def)

lemma wf_ex: "wf_chunks [VStr ''a'', VMod ex_img, VStr ''b'']"
  by (simp add: ok_text_def strip_a_b str_find_def REF_START_def)

lemma from_chunks_texts: "from_chunks UserMessage [VStr ''a'', VStr ''b''] newline = Inr ex_fused_texts"
  by (simp add: from_chunks_def new_message_def ex_fused_texts_def newline_def strip_def lstrip_def
      rstrip_def is_space_def)

lemma chunk_texts: "chunk ex_fused_texts = [VStr (''a'' @ newline @ ''b'')]"
proof -
  have t: "msg_text ex_fused_texts = ''a'' @ newline @ ''b''"
    by (simp add: ex_fused_texts_def init_message_def)
  have nf: "str_find (msg_text ex_fused_texts) REF_START 0 = None"
    by (simp add: t str_find_def REF_START_def newline_def)
  have lt: "0 < length (msg_text ex_fused_texts)" by (simp add: t)
  have "chunk_loop ex_fused_texts [] 0 0 = add_text_chunk [] (strip (drop 0 (msg_text ex_fused_texts)))"
    by (subst chunk_loop.simps) (simp only: lt nf, simp)
  then show ?thesis
    by (simp add: chunk_def t add_text_chunk_def newline_def strip_def lstrip_def rstrip_def is_space_def)
qed

text \<open>
  C3, as the code has it. For a well-formed sequence of chunks (texts and modalities, no two
  texts adjacent, every text with a character that is not whitespace and without a start
  delimiter) and a role variant \<open>c\<close>, \<open>c.from_chunks(chunks)\<close> returns a message \<open>m\<close>
  whose text is the trimmed fusion of the chunks and whose metadata holds the \<open>i\<close>-th modality
  under \<open>obj\<close>\<open>i\<close>, and \<open>m.chunk()\<close> is the sequence with every text chunk trimmed.
\<close>

theorem from_chunks_round_trip:
  assumes "wf_chunks cs" and "c \<noteq> BaseMessage"
  shows "\<exists>m fused n.
           from_chunks c cs newline = Inr m
         \<and> chunk m = map trim_chunk cs
         \<and> from_chunks_loop newline 0 cs ([], 0, fmempty) = Inr (fused, n, metadata m)
         \<and> msg_text m = strip fused
         \<and> n = length (modalities cs)
         \<and> (\<forall>i < length (modalities cs).
               fmlookup (metadata m) (''obj'' @ str_nat i) = Some (maybe_ref (VMod (modalities cs ! i)))
             \<and> get m (''obj'' @ str_nat i) d = GVal (VMod (modalities cs ! i)))"
proof -
  from assms(2) obtain sd where sd: "default_sender c = Some sd"
    by (cases c) simp_all
  let ?fused = "fused_of newline False 0 cs"
  let ?md = "metadata_of 0 cs fmempty"
  let ?m = "init_message c (strip ?fused) sd ?md [] None"
  have loop: "from_chunks_loop newline 0 cs ([], 0, fmempty) = Inr (?fused, length (modalities cs), ?md)"
    using from_chunks_loop_wf [OF assms(1), of newline 0 "[]" 0 fmempty] by simp
  then have fc: "from_chunks c cs newline = Inr ?m"
    by (simp add: from_chunks_def new_message_def sd)
  have sel: "msg_text ?m = strip ?fused" "metadata ?m = ?md"
    by (simp_all add: init_message_def)
  have lk: "\<forall>i < length (modalities cs).
      fmlookup (metadata ?m) (''obj'' @ str_nat i) = Some (maybe_ref (VMod (modalities cs ! i)))"
    using metadata_of_lookup [of _ cs 0 fmempty] by (simp add: sel)
  have ch: "chunk ?m = map trim_chunk cs"
    by (rule chunk_fused [OF assms(1) lk sel(1)])
  have gt: "get ?m (''obj'' @ str_nat i) d = GVal (VMod (modalities cs ! i))"
    if "i < length (modalities cs)" for i
  proof -
    from lk that have "fmlookup (metadata ?m) (''obj'' @ str_nat i)
        = Some (maybe_ref (VMod (modalities cs ! i)))" by blast
    then have "sym_get (metadata ?m) (''obj'' @ str_nat i) d = maybe_ref (VMod (modalities cs ! i))"
      using obj_name_facts [of i] by (simp add: sym_get_def parse_path_plain)
    then show ?thesis
      using obj_name_facts [of i] by (simp add: get_def maybe_ref_def)
  qed
  from fc ch loop sel lk gt show ?thesis by auto
qed

theorem from_chunks_round_trip_witness:
  "wf_chunks [VStr ''a'', VMod ex_img, VStr ''b''] \<and> UserMessage \<noteq> BaseMessage
   \<and> from_chunks UserMessage [VStr ''a'', VMod ex_img, VStr ''b''] newline = Inr ex_fused
   \<and> chunk ex_fused = [VStr ''a'', VMod ex_img, VStr ''b'']
   \<and> get ex_fused ''obj0'' VNone = GVal (VMod ex_img)"
proof -
  have h: "wf_chunks [VStr ''a'', VMod ex_img, VStr ''b'']" "UserMessage \<noteq> BaseMessage"
    by (rule wf_ex) simp
  from from_chunks_round_trip [OF h, of VNone] from_chunks_ex
  have "chunk ex_fused = map trim_chunk [VStr ''a'', VMod ex_img, VStr ''b'']"
    and "get ex_fused (''obj'' @ str_nat 0) VNone = GVal (VMod ex_img)"
    by auto
  with h from_chunks_ex show ?thesis
    by (simp add: strip_a_b str_nat_0)
qed

text \<open>
  C3 as stated fails for two adjacent texts: \<open>from_chunks(['a', 'b']).chunk()\<close> is the one
  chunk made of \<open>a\<close>, a newline and \<open>b\<close>.
\<close>

theorem from_chunks_round_trip_counterexample:
  "from_chunks UserMessage [VStr ''a'', VStr ''b''] newline = Inr ex_fused_texts
   \<and> chunk ex_fused_texts = [VStr (''a'' @ newline @ ''b'')]
   \<and> chunk ex_fused_texts \<noteq> [VStr ''a'', VStr ''b'']"
  by (simp add: from_chunks_texts chunk_texts)

end
